theory Spec2Isabelle
  imports Main "HOL-Library.Sublist" "HOL-Library.Product_Lexorder"
begin

section \<open>Sanitizing values: \<open>safe_str\<close> (fetch_to_postgres.py)\<close>

text \<open>
  Python's slice \<open>s[:n]\<close>: a non-negative bound keeps the first \<open>n\<close> characters, a
  negative one drops the last \<open>-n\<close> (and leaves nothing when \<open>-n\<close> exceeds the length).
\<close>

definition py_slice_to :: "string \<Rightarrow> int \<Rightarrow> string" where
  "py_slice_to s n = (if 0 \<le> n then take (nat n) s else take (nat (int (length s) + n)) s)"

text \<open>
  \<^verbatim>\<open>
  def safe_str(val, max_len=None):
      if val is None:
          return None
      s = str(val)
      return s[:max_len] if max_len else s
  \<close>
  The value is \<open>None\<close> or some Python object; \<open>str\<close> is Python's conversion of that
  object to text and is a parameter of the model. \<open>max_len\<close> is \<open>None\<close> (also when it is
  omitted) or an integer; \<open>None\<close> and \<open>0\<close> are the falsy bounds.
\<close>

definition safe_str :: "('a \<Rightarrow> string) \<Rightarrow> 'a option \<Rightarrow> int option \<Rightarrow> string option" where
  "safe_str str val max_len =
     (case val of
        None \<Rightarrow> None
      | Some v \<Rightarrow>
          (let s = str v
           in Some (case max_len of
                      None \<Rightarrow> s
                    | Some n \<Rightarrow> if n \<noteq> 0 then py_slice_to s n else s)))"

section \<open>The listing store (setup_postgres_db.py)\<close>

text \<open>
  The columns of table \<open>properties\<close> that the pipeline writes and the search reads.
  A nullable column is an \<open>option\<close>. Prices are \<open>DECIMAL(12, 2)\<close> values, held here as
  the integer number of cents; timestamps are points of a discrete clock. The record is
  layered so that a field name means the same column everywhere: \<open>selected_cols\<close> are the
  twelve columns of the search's \<open>SELECT\<close> list, \<open>property_cols\<close> adds the two others of
  the \<open>INSERT\<close> column list, and \<open>properties_row\<close> adds \<open>fetched_at\<close>
  (\<open>DEFAULT CURRENT_TIMESTAMP\<close>). Columns that no statement of the repository names
  keep their defaults and are left out.
\<close>

type_synonym timestamp = nat

record selected_cols =
  listing_key :: "string option"
  unparsed_address :: "string option"
  city :: "string option"
  postal_code :: "string option"
  list_price :: "int option"
  bedrooms :: "int option"
  bathrooms :: "int option"
  property_type :: "string option"
  property_subtype :: "string option"
  year_built :: "int option"
  public_remarks :: "string option"
  standard_status :: "string option"

record property_cols = selected_cols +
  state_province :: "string option"
  last_updated :: "timestamp option"

record properties_row = property_cols +
  fetched_at :: timestamp

text \<open>
  Table \<open>property_media\<close> (the serial \<open>id\<close> is left out; rows are kept in insertion
  order). \<open>media_cols\<close> are the three columns the search selects. \<open>is_primary\<close> is a
  \<open>bool\<close>: the only writer passes \<open>item.get("PreferredPhotoYN") is True\<close>.
\<close>

record media_cols =
  media_url :: "string option"
  media_type :: "string option"
  is_primary :: bool

record property_media_row = media_cols +
  media_listing_key :: "string option"
  media_category :: "string option"
  display_order :: "int option"
  description :: "string option"

record db =
  properties :: "properties_row list"
  property_media :: "property_media_row list"

text \<open>
  A psycopg2 connection outside autocommit: statements change the \<open>working\<close> state of the
  open transaction, \<open>commit\<close> publishes it and \<open>rollback\<close> discards it.
\<close>

record connection =
  committed :: db
  working :: db

definition connect :: "db \<Rightarrow> connection" where
  "connect d = \<lparr>committed = d, working = d\<rparr>"

definition commit :: "connection \<Rightarrow> connection" where
  "commit c = c\<lparr>committed := working c\<rparr>"

definition rollback :: "connection \<Rightarrow> connection" where
  "rollback c = c\<lparr>working := committed c\<rparr>"

subsection \<open>Column constraints\<close>

datatype db_error =
  Not_null_violation | Value_too_long | Numeric_out_of_range | Foreign_key_violation

text \<open>
  \<open>VARCHAR(n)\<close>: a longer value is an error unless the excess is all spaces, which
  PostgreSQL cuts off silently.
\<close>

definition varchar_error :: "nat \<Rightarrow> string option \<Rightarrow> db_error option" where
  "varchar_error n v =
     (case v of
        None \<Rightarrow> None
      | Some s \<Rightarrow>
          if n < length s \<and> \<not> list_all (\<lambda>c. c = CHR '' '') (drop n s)
          then Some Value_too_long else None)"

definition varchar_stored :: "nat \<Rightarrow> string option \<Rightarrow> string option" where
  "varchar_stored n v = map_option (take n) v"

definition integer_error :: "int option \<Rightarrow> db_error option" where
  "integer_error v =
     (case v of
        None \<Rightarrow> None
      | Some i \<Rightarrow> if - 2147483648 \<le> i \<and> i \<le> 2147483647 then None else Some Numeric_out_of_range)"

text \<open>\<open>DECIMAL(12, 2)\<close>: fewer than ten digits before the point, so fewer than \<open>10^12\<close> cents.\<close>

definition decimal_12_2_error :: "int option \<Rightarrow> db_error option" where
  "decimal_12_2_error v =
     (case v of
        None \<Rightarrow> None
      | Some c \<Rightarrow> if \<bar>c\<bar> < 1000000000000 then None else Some Numeric_out_of_range)"

fun first_error :: "db_error option list \<Rightarrow> db_error option" where
  "first_error [] = None"
| "first_error (Some e # es) = Some e"
| "first_error (None # es) = first_error es"

text \<open>The constraints of table \<open>properties\<close> on the fourteen inserted columns.\<close>

definition property_error :: "property_cols \<Rightarrow> db_error option" where
  "property_error t =
     first_error
       [if listing_key t = None then Some Not_null_violation else None,
        varchar_error 50 (listing_key t),
        varchar_error 255 (unparsed_address t),
        varchar_error 100 (city t),
        varchar_error 10 (state_province t),
        varchar_error 10 (postal_code t),
        decimal_12_2_error (list_price t),
        varchar_error 50 (standard_status t),
        varchar_error 50 (property_type t),
        varchar_error 100 (property_subtype t),
        integer_error (bedrooms t),
        integer_error (bathrooms t),
        integer_error (year_built t)]"

definition property_stored :: "property_cols \<Rightarrow> property_cols" where
  "property_stored t =
     t\<lparr>listing_key := varchar_stored 50 (listing_key t),
       unparsed_address := varchar_stored 255 (unparsed_address t),
       city := varchar_stored 100 (city t),
       state_province := varchar_stored 10 (state_province t),
       postal_code := varchar_stored 10 (postal_code t),
       standard_status := varchar_stored 50 (standard_status t),
       property_type := varchar_stored 50 (property_type t),
       property_subtype := varchar_stored 100 (property_subtype t)\<rparr>"

text \<open>
  The constraints of table \<open>property_media\<close>; \<open>listing_key\<close> references
  \<open>properties(listing_key)\<close> and may be null.
\<close>

definition media_error :: "property_media_row \<Rightarrow> db \<Rightarrow> db_error option" where
  "media_error m d =
     first_error
       [case media_listing_key m of
          None \<Rightarrow> None
        | Some k \<Rightarrow>
            if Some k \<in> set (map listing_key (properties d)) then None
            else Some Foreign_key_violation,
        varchar_error 50 (media_listing_key m),
        varchar_error 500 (media_url m),
        varchar_error 50 (media_type m),
        varchar_error 50 (media_category m),
        integer_error (display_order m),
        varchar_error 255 (description m)]"

definition media_stored :: "property_media_row \<Rightarrow> property_media_row" where
  "media_stored m =
     m\<lparr>media_url := varchar_stored 500 (media_url m),
       media_type := varchar_stored 50 (media_type m),
       media_listing_key := varchar_stored 50 (media_listing_key m),
       media_category := varchar_stored 50 (media_category m),
       description := varchar_stored 255 (description m)\<rparr>"

subsection \<open>The two insert statements\<close>

text \<open>
  \<open>ON CONFLICT (listing_key) DO UPDATE SET ...\<close>: the thirteen assignments of the
  statement, in its order. \<open>listing_key\<close> and \<open>fetched_at\<close> are not assigned.
\<close>

definition set_excluded :: "property_cols \<Rightarrow> properties_row \<Rightarrow> properties_row" where
  "set_excluded excluded r =
     r\<lparr>unparsed_address := unparsed_address excluded,
       city := city excluded,
       state_province := state_province excluded,
       postal_code := postal_code excluded,
       list_price := list_price excluded,
       standard_status := standard_status excluded,
       property_type := property_type excluded,
       property_subtype := property_subtype excluded,
       bedrooms := bedrooms excluded,
       bathrooms := bathrooms excluded,
       year_built := year_built excluded,
       public_remarks := public_remarks excluded,
       last_updated := last_updated excluded\<rparr>"

fun on_conflict_update :: "timestamp \<Rightarrow> property_cols \<Rightarrow> properties_row list \<Rightarrow> properties_row list" where
  "on_conflict_update now t [] = [property_cols.extend t (properties_row.fields now)]"
| "on_conflict_update now t (r # rs) =
     (if listing_key r = listing_key t then set_excluded t r # rs
      else r # on_conflict_update now t rs)"

definition upsert_property :: "timestamp \<Rightarrow> property_cols \<Rightarrow> db \<Rightarrow> db_error + db" where
  "upsert_property now t d =
     (case property_error t of
        Some e \<Rightarrow> Inl e
      | None \<Rightarrow> Inr (d\<lparr>properties := on_conflict_update now (property_stored t) (properties d)\<rparr>))"

text \<open>
  \<open>INSERT INTO property_media ... ON CONFLICT DO NOTHING\<close>: the table's only unique
  column is the generated \<open>id\<close>, so no insert conflicts and every accepted row is added.
\<close>

definition insert_media_row :: "property_media_row \<Rightarrow> db \<Rightarrow> db_error + db" where
  "insert_media_row m d =
     (case media_error m d of
        Some e \<Rightarrow> Inl e
      | None \<Rightarrow> Inr (d\<lparr>property_media := property_media d @ [media_stored m]\<rparr>))"

text \<open>
  \<open>psycopg2.extras.execute_batch\<close>: the statement once per record, in order, inside the
  open transaction (\<open>page_size\<close> only groups the round trips). The first error stops the
  batch and is raised; what ran before it is still in the working state.
\<close>

fun execute_batch :: "('r \<Rightarrow> db \<Rightarrow> db_error + db) \<Rightarrow> 'r list \<Rightarrow> db \<Rightarrow> db_error option \<times> db" where
  "execute_batch stmt [] d = (None, d)"
| "execute_batch stmt (r # rs) d =
     (case stmt r d of
        Inl e \<Rightarrow> (Some e, d)
      | Inr d' \<Rightarrow> execute_batch stmt rs d')"

section \<open>The ingestion pipeline (fetch_to_postgres.py)\<close>

text \<open>
  A record of the remote catalog's JSON, by its keys as \<open>p.get\<close> reads them: \<open>None\<close>
  for a key that is missing or null. Text fields arrive as JSON strings, on which Python's
  \<open>str\<close> is the identity.
\<close>

record raw_listing =
  ListingKey :: "string option"
  UnparsedAddress :: "string option"
  City :: "string option"
  StateOrProvince :: "string option"
  PostalCode :: "string option"
  ListPrice :: "int option"
  StandardStatus :: "string option"
  PropertyType :: "string option"
  PropertySubType :: "string option"
  BedroomsTotal :: "int option"
  BathroomsTotalInteger :: "int option"
  YearBuilt :: "int option"
  PublicRemarks :: "string option"
  ModificationTimestamp :: "timestamp option"

record raw_media =
  ResourceRecordKey :: "string option"
  MediaURL :: "string option"
  MediaType :: "string option"
  MediaCategory :: "string option"
  Order :: "int option"
  ShortDescription :: "string option"
  PreferredPhotoYN :: "bool option"

text \<open>
  The outcome of one \<open>httpx.get\<close>: the call raises (no connection, timeout), or a
  response arrives with a status code and a body that is not JSON or is a JSON object,
  whose \<open>"value"\<close> entry may be missing.
\<close>

datatype 'a body = Not_json | Json "'a list option"

datatype 'a http_result = Transport_failure | Response nat "'a body"

datatype py_exception = Transport_error | Json_decode_error

text \<open>
  The world outside the process: the answer of the \<open>Property\<close> endpoint to
  \<open>$top\<close> and \<open>$skip\<close>, the answer of the \<open>Media\<close> endpoint to the request for a key
  (by the offset of the page being ingested and the position of the key in that page's
  key list, so that two requests may be answered differently), and the database clock when
  the page at an offset is written.
\<close>

record remote =
  property_endpoint :: "nat \<Rightarrow> nat \<Rightarrow> raw_listing http_result"
  media_endpoint :: "nat \<Rightarrow> nat \<Rightarrow> string \<Rightarrow> raw_media http_result"
  clock :: "nat \<Rightarrow> timestamp"

text \<open>What a run does that is visible from outside: its requests and the lines it prints.\<close>

datatype event =
    Property_request nat nat
  | Property_fetch_failed nat
  | Upserted nat
  | Insert_properties_error db_error
  | Media_request string
  | Media_fetch_failed nat string
  | Media_fetch_error string
  | Media_inserted nat
  | Insert_media_error db_error
  | Fetching_media nat
  | Batch_total nat nat
  | Fetch_complete nat

text \<open>
  \<^verbatim>\<open>
  r = httpx.get(url, headers=self.headers, timeout=60)
  if r.status_code == 200:
      return r.json().get("value", [])
  else:
      print(f"... Property fetch failed: {r.status_code} {r.text[:200]}")
      return []
  \<close>
  There is no \<open>try\<close> around the request: what \<open>httpx.get\<close> or \<open>r.json()\<close> raises
  leaves the function.
\<close>

definition fetch_properties :: "remote \<Rightarrow> nat \<Rightarrow> nat \<Rightarrow> (py_exception + raw_listing list) \<times> event list" where
  "fetch_properties env top_n skip =
     (case property_endpoint env top_n skip of
        Transport_failure \<Rightarrow> (Inl Transport_error, [Property_request top_n skip])
      | Response status_code b \<Rightarrow>
          if status_code = 200 then
            (case b of
               Not_json \<Rightarrow> (Inl Json_decode_error, [Property_request top_n skip])
             | Json v \<Rightarrow> (Inr (case v of None \<Rightarrow> [] | Some xs \<Rightarrow> xs), [Property_request top_n skip]))
          else (Inr [], [Property_request top_n skip, Property_fetch_failed status_code]))"

text \<open>The tuple \<open>insert_properties\<close> builds for one record, in the column names of the statement.\<close>

definition property_tuple :: "raw_listing \<Rightarrow> property_cols" where
  "property_tuple p =
     \<lparr>listing_key = safe_str (\<lambda>s. s) (ListingKey p) (Some 50),
      unparsed_address = safe_str (\<lambda>s. s) (UnparsedAddress p) (Some 255),
      city = safe_str (\<lambda>s. s) (City p) (Some 100),
      postal_code = safe_str (\<lambda>s. s) (PostalCode p) (Some 10),
      list_price = ListPrice p,
      bedrooms = BedroomsTotal p,
      bathrooms = BathroomsTotalInteger p,
      property_type = safe_str (\<lambda>s. s) (PropertyType p) (Some 50),
      property_subtype = safe_str (\<lambda>s. s) (PropertySubType p) (Some 100),
      year_built = YearBuilt p,
      public_remarks = safe_str (\<lambda>s. s) (PublicRemarks p) None,
      standard_status = safe_str (\<lambda>s. s) (StandardStatus p) (Some 50),
      state_province = safe_str (\<lambda>s. s) (StateOrProvince p) (Some 10),
      last_updated = ModificationTimestamp p\<rparr>"

text \<open>
  \<^verbatim>\<open>
  try:
      if property_data:
          execute_batch(self.cursor, property_query, property_data, page_size=100)
      self.conn.commit()
      print(f"... Inserted/Updated {len(property_data)} properties")
  except Exception as e:
      self.conn.rollback()
      print(f"... Error inserting properties: {e}")
  \<close>
  \<open>now\<close> is the database clock of the transaction.
\<close>

definition insert_properties :: "timestamp \<Rightarrow> raw_listing list \<Rightarrow> connection \<Rightarrow> connection \<times> event list" where
  "insert_properties now props c =
     (let property_data = map property_tuple props;
          (raised, w) =
            (if property_data \<noteq> [] then execute_batch (upsert_property now) property_data (working c)
             else (None, working c));
          c' = c\<lparr>working := w\<rparr>
      in case raised of
           None \<Rightarrow> (commit c', [Upserted (length property_data)])
         | Some e \<Rightarrow> (rollback c', [Insert_properties_error e]))"

definition media_tuple :: "raw_media \<Rightarrow> property_media_row" where
  "media_tuple item =
     \<lparr>media_url = MediaURL item,
      media_type = safe_str (\<lambda>s. s) (MediaType item) (Some 50),
      is_primary = (PreferredPhotoYN item = Some True),
      media_listing_key = safe_str (\<lambda>s. s) (ResourceRecordKey item) (Some 50),
      media_category = safe_str (\<lambda>s. s) (MediaCategory item) (Some 50),
      display_order = Order item,
      description = ShortDescription item\<rparr>"

definition insert_media :: "property_media_row list \<Rightarrow> connection \<Rightarrow> connection \<times> event list" where
  "insert_media media_records c =
     (let (raised, w) = execute_batch insert_media_row media_records (working c);
          c' = c\<lparr>working := w\<rparr>
      in case raised of
           None \<Rightarrow> (commit c', [Media_inserted (length media_records)])
         | Some e \<Rightarrow> (rollback c', [Insert_media_error e]))"

text \<open>
  One pass of the loop over the keys in \<open>fetch_media_for_properties\<close>: the records the
  answer adds to \<open>media_records\<close> and what is printed. Here the request and the decoding
  stand inside \<open>try ... except Exception\<close>.
\<close>

definition media_response :: "string \<Rightarrow> raw_media http_result \<Rightarrow> property_media_row list \<times> event list" where
  "media_response key r =
     (case r of
        Transport_failure \<Rightarrow> ([], [Media_request key, Media_fetch_error key])
      | Response status_code b \<Rightarrow>
          if status_code = 200 then
            (case b of
               Not_json \<Rightarrow> ([], [Media_request key, Media_fetch_error key])
             | Json v \<Rightarrow> (map media_tuple (case v of None \<Rightarrow> [] | Some xs \<Rightarrow> xs), [Media_request key]))
          else ([], [Media_request key, Media_fetch_failed status_code key]))"

definition fetch_media_for_properties :: "(nat \<Rightarrow> string \<Rightarrow> raw_media http_result) \<Rightarrow> string list \<Rightarrow> connection \<Rightarrow> connection \<times> event list" where
  "fetch_media_for_properties media_get listing_keys c =
     (let answers = map (\<lambda>(i, key). media_response key (media_get i key)) (enumerate 0 listing_keys);
          media_records = concat (map fst answers);
          printed = concat (map snd answers)
      in if media_records \<noteq> [] then
           (let (c', ev) = insert_media media_records c in (c', printed @ ev))
         else (c, printed))"

text \<open>The state of \<open>fetch_all\<close>: the connection, the counter \<open>total\<close> and the events so far.\<close>

record run =
  conn :: connection
  total :: nat
  log :: "event list"

text \<open>\<open>[p.get("ListingKey") for p in props if p.get("ListingKey")]\<close>\<close>

definition page_keys :: "raw_listing list \<Rightarrow> string list" where
  "page_keys props =
     List.map_filter
       (\<lambda>p. case ListingKey p of None \<Rightarrow> None | Some k \<Rightarrow> if k \<noteq> [] then Some k else None)
       props"

text \<open>The body of the loop in \<open>fetch_all\<close> for a page that is not empty.\<close>

definition process_page :: "remote \<Rightarrow> bool \<Rightarrow> nat \<Rightarrow> raw_listing list \<Rightarrow> run \<Rightarrow> run" where
  "process_page env fetch_media skip props st =
     (let (c1, ev1) = insert_properties (clock env skip) props (conn st);
          keys = page_keys props;
          (c2, ev2) =
            (if fetch_media \<and> keys \<noteq> [] then
               (let (c, ev) = fetch_media_for_properties (media_endpoint env skip) keys c1
                in (c, Fetching_media (length keys) # ev))
             else (c1, []));
          total' = total st + length props
      in \<lparr>conn = c2, total = total',
          log = log st @ ev1 @ ev2 @ [Batch_total (skip div 100 + 1) total']\<rparr>)"

text \<open>
  \<^verbatim>\<open>
  for skip in range(0, limit, 100):
      props = self.fetch_properties(top=100, skip=skip)
      if not props:
          break
      ...
  \<close>
  over the offsets still to visit. The second component is the exception that ended the
  run, if one did.
\<close>

fun fetch_loop :: "remote \<Rightarrow> bool \<Rightarrow> nat list \<Rightarrow> run \<Rightarrow> run \<times> py_exception option" where
  "fetch_loop env fetch_media [] st = (st, None)"
| "fetch_loop env fetch_media (skip # rest) st =
     (case fetch_properties env 100 skip of
        (Inl e, ev) \<Rightarrow> (st\<lparr>log := log st @ ev\<rparr>, Some e)
      | (Inr props, ev) \<Rightarrow>
          if props = [] then (st\<lparr>log := log st @ ev\<rparr>, None)
          else fetch_loop env fetch_media rest
                 (process_page env fetch_media skip props (st\<lparr>log := log st @ ev\<rparr>)))"

text \<open>\<open>range(0, limit, 100)\<close>\<close>

definition range_by_100 :: "int \<Rightarrow> nat list" where
  "range_by_100 limit = map (\<lambda>i. 100 * i) [0 ..< nat ((limit + 99) div 100)]"

definition fetch_all :: "remote \<Rightarrow> int \<Rightarrow> bool \<Rightarrow> connection \<Rightarrow> run \<times> py_exception option" where
  "fetch_all env limit fetch_media c =
     (case fetch_loop env fetch_media (range_by_100 limit) \<lparr>conn = c, total = 0, log = []\<rparr> of
        (st, None) \<Rightarrow> (st\<lparr>log := log st @ [Fetch_complete (total st)]\<rparr>, None)
      | (st, Some e) \<Rightarrow> (st, Some e))"

text \<open>The offsets of the listing requests among some events, in the order issued.\<close>

fun requested_offsets :: "event list \<Rightarrow> nat list" where
  "requested_offsets [] = []"
| "requested_offsets (Property_request top_n skip # evs) = skip # requested_offsets evs"
| "requested_offsets (_ # evs) = requested_offsets evs"

section \<open>The search engine (chatbot_postgres.py)\<close>

text \<open>
  A keyword argument of \<open>search_properties(**params)\<close> is omitted, or given with a
  value that may be \<open>None\<close> (main.py passes every filter, \<open>None\<close> when the request left
  it out). \<open>params.get\<close> does not tell the two apart. The filters are typed as main.py
  declares them; prices are in cents like the column.
\<close>

datatype 'a arg = Omitted | Given "'a option"

fun params_get :: "'a arg \<Rightarrow> 'a option" where
  "params_get Omitted = None"
| "params_get (Given v) = v"

record search_params =
  arg_city :: "string arg"
  arg_min_price :: "int arg"
  arg_max_price :: "int arg"
  arg_bedrooms :: "int arg"
  arg_bathrooms :: "int arg"

text \<open>The conditions the function can append, each with the value it appends to \<open>values\<close>.\<close>

datatype condition =
    City_like string
  | List_price_ge int
  | List_price_le int
  | Bedrooms_eq int
  | Bathrooms_eq int

text \<open>
  \<^verbatim>\<open>
  if params.get('city'):
      conditions.append("LOWER(city) LIKE LOWER(%s)")
      values.append(f"%{params['city']}%")
  if params.get('min_price'):
      conditions.append("list_price >= %s")
      values.append(params['min_price'])
  ...
  \<close>
  Each test is Python truthiness: \<open>None\<close>, the empty string and \<open>0\<close> fail it.
\<close>

definition conditions :: "search_params \<Rightarrow> condition list" where
  "conditions params =
     (case params_get (arg_city params) of
        None \<Rightarrow> []
      | Some c \<Rightarrow> if c \<noteq> [] then [City_like (''%'' @ c @ ''%'')] else [])
     @ (case params_get (arg_min_price params) of
          None \<Rightarrow> []
        | Some v \<Rightarrow> if v \<noteq> 0 then [List_price_ge v] else [])
     @ (case params_get (arg_max_price params) of
          None \<Rightarrow> []
        | Some v \<Rightarrow> if v \<noteq> 0 then [List_price_le v] else [])
     @ (case params_get (arg_bedrooms params) of
          None \<Rightarrow> []
        | Some v \<Rightarrow> if v \<noteq> 0 then [Bedrooms_eq v] else [])
     @ (case params_get (arg_bathrooms params) of
          None \<Rightarrow> []
        | Some v \<Rightarrow> if v \<noteq> 0 then [Bathrooms_eq v] else [])"

subsection \<open>Evaluating the query\<close>

datatype sql_error = Like_escape_at_end

text \<open>\<open>LOWER\<close> on the letters A to Z; other characters are kept.\<close>

definition lower_char :: "char \<Rightarrow> char" where
  "lower_char c =
     (case map_of (zip ''ABCDEFGHIJKLMNOPQRSTUVWXYZ'' ''abcdefghijklmnopqrstuvwxyz'') c of
        None \<Rightarrow> c
      | Some l \<Rightarrow> l)"

definition lower :: "string \<Rightarrow> string" where
  "lower s = map lower_char s"

text \<open>
  \<open>s LIKE pattern\<close>: \<open>%\<close> stands for any run of characters, \<open>_\<close> for any one
  character, and a backslash makes the next pattern character literal; PostgreSQL raises
  an error when the matcher meets a backslash that ends the pattern.
\<close>

fun like :: "string \<Rightarrow> string \<Rightarrow> sql_error + bool" where
  "like s [] = Inr (s = [])"
| "like s (p # ps) =
     (if p = CHR ''%'' then
        (case like s ps of
           Inl e \<Rightarrow> Inl e
         | Inr True \<Rightarrow> Inr True
         | Inr False \<Rightarrow> (case s of [] \<Rightarrow> Inr False | c # s' \<Rightarrow> like s' (p # ps)))
      else
        (case s of
           [] \<Rightarrow> Inr False
         | c # s' \<Rightarrow>
             if p = CHR ''_'' then like s' ps
             else if p = CHR 0x5C then
               (case ps of
                  [] \<Rightarrow> Inl Like_escape_at_end
                | q # qs \<Rightarrow> if c = q then like s' qs else Inr False)
             else if c = p then like s' ps else Inr False))"

text \<open>
  SQL's three truth values: \<open>None\<close> is unknown, the value of a comparison with a null
  column. \<open>WHERE\<close> keeps a row only when the clause is true.
\<close>

fun sql_and :: "bool option \<Rightarrow> bool option \<Rightarrow> bool option" where
  "sql_and (Some False) _ = Some False"
| "sql_and _ (Some False) = Some False"
| "sql_and (Some True) (Some True) = Some True"
| "sql_and _ _ = None"

fun holds :: "condition \<Rightarrow> 'a selected_cols_scheme \<Rightarrow> sql_error + bool option" where
  "holds (City_like pat) r =
     (case city r of
        None \<Rightarrow> Inr None
      | Some c \<Rightarrow> (case like (lower c) (lower pat) of Inl e \<Rightarrow> Inl e | Inr b \<Rightarrow> Inr (Some b)))"
| "holds (List_price_ge v) r = Inr (map_option (\<lambda>p. v \<le> p) (list_price r))"
| "holds (List_price_le v) r = Inr (map_option (\<lambda>p. p \<le> v) (list_price r))"
| "holds (Bedrooms_eq v) r = Inr (map_option (\<lambda>b. b = v) (bedrooms r))"
| "holds (Bathrooms_eq v) r = Inr (map_option (\<lambda>b. b = v) (bathrooms r))"

text \<open>\<open>" AND ".join(conditions) if conditions else "1=1"\<close>, evaluated on a row.\<close>

fun where_clause :: "condition list \<Rightarrow> 'a selected_cols_scheme \<Rightarrow> sql_error + bool option" where
  "where_clause [] r = Inr (Some True)"
| "where_clause (c # cs) r =
     (case holds c r of
        Inl e \<Rightarrow> Inl e
      | Inr a \<Rightarrow> (case where_clause cs r of Inl e \<Rightarrow> Inl e | Inr b \<Rightarrow> Inr (sql_and a b)))"

fun select_where :: "condition list \<Rightarrow> 'a selected_cols_scheme list \<Rightarrow> sql_error + 'a selected_cols_scheme list" where
  "select_where cs [] = Inr []"
| "select_where cs (r # rs) =
     (case where_clause cs r of
        Inl e \<Rightarrow> Inl e
      | Inr v \<Rightarrow>
          (case select_where cs rs of
             Inl e \<Rightarrow> Inl e
           | Inr out \<Rightarrow> Inr (if v = Some True then r # out else out)))"

text \<open>
  \<open>ORDER BY list_price DESC\<close>: PostgreSQL puts nulls first in a descending order. The
  rows are sorted on a key that is ascending in that order; rows of equal price, which
  SQL may return in any order, keep their order in the table.
\<close>

definition price_desc_key :: "'a selected_cols_scheme \<Rightarrow> nat \<times> int" where
  "price_desc_key r = (case list_price r of None \<Rightarrow> (0, 0) | Some p \<Rightarrow> (1, - p))"

definition select_properties :: "search_params \<Rightarrow> db \<Rightarrow> sql_error + properties_row list" where
  "select_properties params d =
     (case select_where (conditions params) (properties d) of
        Inl e \<Rightarrow> Inl e
      | Inr rows \<Rightarrow> Inr (take 10 (sort_key price_desc_key rows)))"

text \<open>\<open>WHERE listing_key = %s\<close> on a media row: true only when both sides are not null.\<close>

definition media_of :: "string option \<Rightarrow> property_media_row \<Rightarrow> bool" where
  "media_of k m = (case (media_listing_key m, k) of (Some a, Some b) \<Rightarrow> a = b | _ \<Rightarrow> False)"

text \<open>
  \<open>ORDER BY is_primary DESC, display_order\<close>: true before false, then ascending
  display order with nulls last.
\<close>

definition media_order_key :: "property_media_row \<Rightarrow> nat \<times> nat \<times> int" where
  "media_order_key m =
     (if is_primary m then 0 else 1,
      case display_order m of None \<Rightarrow> (1, 0) | Some n \<Rightarrow> (0, n))"

definition select_media :: "db \<Rightarrow> string option \<Rightarrow> property_media_row list" where
  "select_media d k = take 5 (sort_key media_order_key (filter (media_of k) (property_media d)))"

definition photo_count_of :: "db \<Rightarrow> string option \<Rightarrow> nat" where
  "photo_count_of d k = length (filter (media_of k) (property_media d))"

text \<open>A row of the result: the selected columns, \<open>photo_count\<close>, and \<open>prop['media']\<close>.\<close>

record search_row = selected_cols +
  photo_count :: nat
  media :: "media_cols list"

definition result_row :: "db \<Rightarrow> properties_row \<Rightarrow> search_row" where
  "result_row d p =
     selected_cols.extend (selected_cols.truncate p)
       (search_row.fields (photo_count_of d (listing_key p))
          (map media_cols.truncate (select_media d (listing_key p))))"

definition search_properties :: "search_params \<Rightarrow> db \<Rightarrow> sql_error + search_row list" where
  "search_properties params d =
     (case select_properties params d of
        Inl e \<Rightarrow> Inl e
      | Inr rows \<Rightarrow> Inr (map (result_row d) rows))"

text \<open>
  \<open>process_message\<close>, the preview list:
  \<^verbatim>\<open>
  for prop in properties[:3]:
      if prop.get('media'):
          for media in prop['media'][:3]:
              if media['media_url']:
                  media_urls.append(media['media_url'])
  ... "media_urls": media_urls[:9]
  \<close>
\<close>

definition preview_urls :: "search_row \<Rightarrow> string list" where
  "preview_urls prop =
     List.map_filter
       (\<lambda>m. case media_url m of None \<Rightarrow> None | Some u \<Rightarrow> if u \<noteq> [] then Some u else None)
       (take 3 (media prop))"

definition media_urls :: "search_row list \<Rightarrow> string list" where
  "media_urls props = take 9 (concat (map preview_urls (take 3 props)))"

text \<open>main.py, per property of the chat answer: \<open>[m.get("media_url") for m in prop.get("media", [])[:3]]\<close>\<close>

definition formatted_media_urls :: "search_row \<Rightarrow> string option list" where
  "formatted_media_urls prop = map media_url (take 3 (media prop))"

subsection \<open>Cities\<close>

text \<open>
  \<^verbatim>\<open>
  SELECT DISTINCT city, COUNT(*) as count FROM properties
  WHERE city IS NOT NULL GROUP BY city ORDER BY count DESC LIMIT 20
  \<close>
  One group per city in order of first appearance, sorted by descending count; groups of
  equal count, which SQL may return in any order, keep that order.
\<close>

definition city_counts :: "db \<Rightarrow> (string \<times> nat) list" where
  "city_counts d =
     (let cs = List.map_filter city (properties d)
      in take 20 (sort_key (\<lambda>(c, n). - int n) (map (\<lambda>c. (c, count_list cs c)) (remdups cs))))"

fun str_digit :: "nat \<Rightarrow> char" where
  "str_digit n = ''0123456789'' ! n"

function str_nat :: "nat \<Rightarrow> string" where
  "str_nat n = (if n < 10 then [str_digit n] else str_nat (n div 10) @ [str_digit (n mod 10)])"
  by pat_completeness auto
termination
  by (relation "measure (\<lambda>n. n)") auto

text \<open>\<open>[f"{c['city']} ({c['count']} properties)" for c in cities]\<close>\<close>

definition get_available_cities :: "db \<Rightarrow> string list" where
  "get_available_cities d = map (\<lambda>(c, n). c @ '' ('' @ str_nat n @ '' properties)'') (city_counts d)"

section \<open>Notions used in the statements\<close>

text \<open>A \<open>LIKE\<close> pattern whose last character is a backslash that nothing escapes.\<close>

fun ends_with_escape :: "string \<Rightarrow> bool" where
  "ends_with_escape [] = False"
| "ends_with_escape [p] = (p = CHR 0x5C)"
| "ends_with_escape (p # q # ps) =
     (if p = CHR 0x5C then ends_with_escape ps else ends_with_escape (q # ps))"

fun condition_ok :: "condition \<Rightarrow> bool" where
  "condition_ok (City_like pat) = (\<not> ends_with_escape (lower pat))"
| "condition_ok _ = True"

text \<open>A row satisfies a condition when the condition is true on it (not false, not unknown).\<close>

definition satisfies :: "condition \<Rightarrow> 'a selected_cols_scheme \<Rightarrow> bool" where
  "satisfies c r = (holds c r = Inr (Some True))"

definition satisfies_all :: "condition list \<Rightarrow> 'a selected_cols_scheme \<Rightarrow> bool" where
  "satisfies_all cs r = list_all (\<lambda>c. satisfies c r) cs"

text \<open>
  \<open>price_ge a b\<close>: a row priced \<open>a\<close> may stand before a row priced \<open>b\<close> in
  \<open>ORDER BY list_price DESC\<close>, where a null price ranks above every number.
\<close>

fun price_ge :: "int option \<Rightarrow> int option \<Rightarrow> bool" where
  "price_ge None _ = True"
| "price_ge (Some a) None = False"
| "price_ge (Some a) (Some b) = (b \<le> a)"

text \<open>
  Following the spec's words, for comparison with \<open>conditions\<close>: the predicates a call
  supplies with a value, and the calls that give no predicate the value \<open>0\<close> or the empty
  string.
\<close>

definition supplied :: "search_params \<Rightarrow> condition list" where
  "supplied params =
     (case arg_city params of Given (Some c) \<Rightarrow> [City_like (''%'' @ c @ ''%'')] | _ \<Rightarrow> [])
     @ (case arg_min_price params of Given (Some v) \<Rightarrow> [List_price_ge v] | _ \<Rightarrow> [])
     @ (case arg_max_price params of Given (Some v) \<Rightarrow> [List_price_le v] | _ \<Rightarrow> [])
     @ (case arg_bedrooms params of Given (Some v) \<Rightarrow> [Bedrooms_eq v] | _ \<Rightarrow> [])
     @ (case arg_bathrooms params of Given (Some v) \<Rightarrow> [Bathrooms_eq v] | _ \<Rightarrow> [])"

definition no_falsy_value :: "search_params \<Rightarrow> bool" where
  "no_falsy_value params \<longleftrightarrow>
     arg_city params \<noteq> Given (Some [])
     \<and> arg_min_price params \<noteq> Given (Some 0)
     \<and> arg_max_price params \<noteq> Given (Some 0)
     \<and> arg_bedrooms params \<noteq> Given (Some 0)
     \<and> arg_bathrooms params \<noteq> Given (Some 0)"

text \<open>
  \<open>display_le a b\<close>: display order \<open>a\<close> may stand before \<open>b\<close> in an ascending order
  with nulls last. \<open>media_before a b\<close>: media row \<open>a\<close> may stand before \<open>b\<close> in
  \<open>ORDER BY is_primary DESC, display_order\<close>.
\<close>

fun display_le :: "int option \<Rightarrow> int option \<Rightarrow> bool" where
  "display_le _ None = True"
| "display_le None (Some b) = False"
| "display_le (Some a) (Some b) = (a \<le> b)"

definition media_before :: "property_media_row \<Rightarrow> property_media_row \<Rightarrow> bool" where
  "media_before a b \<longleftrightarrow>
     (is_primary a \<and> \<not> is_primary b)
     \<or> (is_primary a = is_primary b \<and> display_le (display_order a) (display_order b))"

text \<open>The direct count: the rows of \<open>properties\<close> whose city is \<open>c\<close>.\<close>

definition rows_in_city :: "db \<Rightarrow> string \<Rightarrow> nat" where
  "rows_in_city d c = length (filter (\<lambda>r. city r = Some c) (properties d))"

text \<open>
  The keys of the listings in a store, and a connection with no transaction open: the
  pipeline opens its connection and ends every operation with \<open>commit\<close> or
  \<open>rollback\<close>.
\<close>

definition listing_keys :: "db \<Rightarrow> string option set" where
  "listing_keys d = set (map listing_key (properties d))"

definition clean :: "connection \<Rightarrow> bool" where
  "clean c \<longleftrightarrow> working c = committed c"

text \<open>The attempts to upsert a batch among some events, with their outcome.\<close>

fun upsert_events :: "event list \<Rightarrow> event list" where
  "upsert_events [] = []"
| "upsert_events (Upserted n # evs) = Upserted n # upsert_events evs"
| "upsert_events (Insert_properties_error e # evs) = Insert_properties_error e # upsert_events evs"
| "upsert_events (_ # evs) = upsert_events evs"

text \<open>
  The offsets the loop of \<open>fetch_all\<close> asks the remote for, read off the answers: it
  goes on to the next offset only after a page that is not empty.
\<close>

fun requested :: "remote \<Rightarrow> nat list \<Rightarrow> nat list" where
  "requested env [] = []"
| "requested env (skip # rest) =
     skip # (case fst (fetch_properties env 100 skip) of
               Inl e \<Rightarrow> []
             | Inr props \<Rightarrow> if props = [] then [] else requested env rest)"

text \<open>
  A batch that the store accepts: no record's tuple violates a constraint. What upserting
  the tuples of a batch one after the other makes of the rows of \<open>properties\<close>.
\<close>

definition accepted :: "raw_listing list \<Rightarrow> bool" where
  "accepted batch \<longleftrightarrow> (\<forall>p \<in> set batch. property_error (property_tuple p) = None)"

definition upsert_all :: "timestamp \<Rightarrow> property_cols list \<Rightarrow> properties_row list \<Rightarrow> properties_row list" where
  "upsert_all now ts rows = fold (\<lambda>t. on_conflict_update now (property_stored t)) ts rows"

text \<open>
  The tuple of a batch that is upserted last among those with a given key, and a row with
  the assignments of that tuple applied to it.
\<close>

definition last_with_key :: "property_cols list \<Rightarrow> string option \<Rightarrow> property_cols option" where
  "last_with_key ts k = find (\<lambda>t. listing_key t = k) (rev ts)"

definition overwrite :: "property_cols list \<Rightarrow> properties_row \<Rightarrow> properties_row" where
  "overwrite ts r = (case last_with_key ts (listing_key r) of None \<Rightarrow> r | Some t \<Rightarrow> set_excluded t r)"

section \<open>Example data\<close>

text \<open>A listing with a key, a city, a price in cents and a bedroom count; nothing else is set.\<close>

definition listing :: "string \<Rightarrow> string option \<Rightarrow> int option \<Rightarrow> int option \<Rightarrow> properties_row" where
  "listing k c p b =
     \<lparr>listing_key = Some k, unparsed_address = None, city = c, postal_code = None,
      list_price = p, bedrooms = b, bathrooms = None, property_type = None,
      property_subtype = None, year_built = None, public_remarks = None,
      standard_status = None, state_province = None, last_updated = None, fetched_at = 0\<rparr>"

definition no_params :: search_params where
  "no_params =
     \<lparr>arg_city = Omitted, arg_min_price = Omitted, arg_max_price = Omitted,
      arg_bedrooms = Omitted, arg_bathrooms = Omitted\<rparr>"

definition three_listings :: db where
  "three_listings =
     \<lparr>properties =
        [listing ''A1'' (Some ''Toronto'') (Some 90000000) (Some 3),
         listing ''A2'' (Some ''Ottawa'') None (Some 2),
         listing ''A3'' None (Some 95000000) (Some 3)],
      property_media = []\<rparr>"

definition eleven_listings :: db where
  "eleven_listings =
     \<lparr>properties =
        [listing ''K01'' (Some ''Toronto'') (Some 100) None,
         listing ''K02'' (Some ''Toronto'') (Some 200) None,
         listing ''K03'' (Some ''Toronto'') (Some 300) None,
         listing ''K04'' (Some ''Toronto'') (Some 400) None,
         listing ''K05'' (Some ''Toronto'') (Some 500) None,
         listing ''K06'' (Some ''Toronto'') (Some 600) None,
         listing ''K07'' (Some ''Toronto'') (Some 700) None,
         listing ''K08'' (Some ''Toronto'') (Some 800) None,
         listing ''K09'' (Some ''Toronto'') (Some 900) None,
         listing ''K10'' (Some ''Toronto'') (Some 1000) None,
         listing ''K11'' (Some ''Toronto'') (Some 1100) None],
      property_media = []\<rparr>"

definition toronto_under_a_million :: search_params where
  "toronto_under_a_million =
     no_params\<lparr>arg_city := Given (Some ''toronto''), arg_max_price := Given (Some 100000000)\<rparr>"

text \<open>A media row of a listing with a URL, the primary flag and a display order.\<close>

definition photo :: "string \<Rightarrow> string \<Rightarrow> bool \<Rightarrow> int option \<Rightarrow> property_media_row" where
  "photo k url primary ord =
     \<lparr>media_url = Some url, media_type = None, is_primary = primary,
      media_listing_key = Some k, media_category = None, display_order = ord,
      description = None\<rparr>"

definition listing_with_photos :: db where
  "listing_with_photos =
     \<lparr>properties = [listing ''A1'' (Some ''Toronto'') (Some 90000000) (Some 3)],
      property_media =
        [photo ''A1'' ''1.jpg'' False (Some 2),
         photo ''A1'' ''2.jpg'' False (Some 1),
         photo ''A1'' ''3.jpg'' True (Some 9),
         photo ''A1'' ''4.jpg'' False None,
         photo ''A1'' ''5.jpg'' False (Some 3),
         photo ''A1'' ''6.jpg'' False (Some 4)]\<rparr>"

definition four_listings :: db where
  "four_listings =
     \<lparr>properties =
        [listing ''A1'' (Some ''Ottawa'') (Some 90000000) (Some 3),
         listing ''A2'' (Some ''Toronto'') None (Some 2),
         listing ''A3'' None (Some 95000000) (Some 3),
         listing ''A4'' (Some ''Toronto'') (Some 70000000) None],
      property_media = []\<rparr>"

text \<open>
  A raw record with a key, a city and a price. A remote that cannot be reached; one whose
  second page fails with status 503 while a third page would have data; and one whose first
  page holds a record without \<open>ListingKey\<close>.
\<close>

definition raw :: "string option \<Rightarrow> string option \<Rightarrow> int option \<Rightarrow> raw_listing" where
  "raw k c p =
     \<lparr>ListingKey = k, UnparsedAddress = None, City = c, StateOrProvince = None,
      PostalCode = None, ListPrice = p, StandardStatus = None, PropertyType = None,
      PropertySubType = None, BedroomsTotal = None, BathroomsTotalInteger = None,
      YearBuilt = None, PublicRemarks = None, ModificationTimestamp = None\<rparr>"

definition empty_db :: db where
  "empty_db = \<lparr>properties = [], property_media = []\<rparr>"

definition unreachable_remote :: remote where
  "unreachable_remote =
     \<lparr>property_endpoint = (\<lambda>top_n skip. Transport_failure),
      media_endpoint = (\<lambda>skip i key. Transport_failure),
      clock = (\<lambda>skip. 0)\<rparr>"

definition failing_second_page :: remote where
  "failing_second_page =
     \<lparr>property_endpoint =
        (\<lambda>top_n skip.
           if skip = 0 then Response 200 (Json (Some [raw (Some ''A1'') (Some ''Toronto'') (Some 90000000)]))
           else if skip = 100 then Response 503 Not_json
           else Response 200 (Json (Some [raw (Some ''Z9'') (Some ''Ottawa'') None]))),
      media_endpoint = (\<lambda>skip i key. Response 404 Not_json),
      clock = (\<lambda>skip. skip)\<rparr>"

definition keyless_record_page :: "raw_listing list" where
  "keyless_record_page =
     [raw (Some ''A1'') (Some ''Toronto'') (Some 95000000), raw None (Some ''Ottawa'') None]"

definition rejected_first_page :: remote where
  "rejected_first_page =
     \<lparr>property_endpoint =
        (\<lambda>top_n skip.
           if skip = 0 then Response 200 (Json (Some keyless_record_page))
           else Response 200 (Json (Some [raw (Some ''B2'') (Some ''Ottawa'') None]))),
      media_endpoint = (\<lambda>skip i key. Response 404 Not_json),
      clock = (\<lambda>skip. skip)\<rparr>"

text \<open>A batch in which the key \<open>A1\<close> comes twice, with two prices.\<close>

definition repeated_key_batch :: "raw_listing list" where
  "repeated_key_batch =
     [raw (Some ''A1'') (Some ''Toronto'') (Some 95000000),
      raw (Some ''B7'') (Some ''Ottawa'') (Some 50000000),
      raw (Some ''A1'') (Some ''Toronto'') (Some 97000000)]"

section \<open>Properties of the sanitizer\<close>

lemma safe_str_None_iff: "safe_str str val max_len = None \<longleftrightarrow> val = None"
  by (simp add: safe_str_def Let_def split: option.splits)

lemma safe_str_positive:
  "0 < n \<Longrightarrow> safe_str str (Some v) (Some n) = Some (take (nat n) (str v))"
  by (simp add: safe_str_def py_slice_to_def)

lemma safe_str_unbounded:
  "max_len = None \<or> max_len = Some 0 \<Longrightarrow> safe_str str (Some v) max_len = Some (str v)"
  by (auto simp: safe_str_def)

text \<open>
  Claim C10. \<open>safe_str\<close> returns \<open>None\<close> exactly when its value is \<open>None\<close>; for a value
  that is not \<open>None\<close> and a positive \<open>max_len\<close> the result is a prefix of the value's
  string form, at most \<open>max_len\<close> characters long (namely its first \<open>max_len\<close>
  characters); with \<open>max_len\<close> omitted, \<open>None\<close> or \<open>0\<close> the result is the whole string.
\<close>

theorem C10_safe_str:
  "(safe_str str val max_len = None \<longleftrightarrow> val = None)
   \<and> (0 < n \<longrightarrow>
        (\<exists>s. safe_str str (Some v) (Some n) = Some s
             \<and> prefix s (str v) \<and> length s \<le> nat n
             \<and> s = take (nat n) (str v)))
   \<and> (max_len = None \<or> max_len = Some 0 \<longrightarrow> safe_str str (Some v) max_len = Some (str v))"
proof (intro conjI impI)
  show "safe_str str val max_len = None \<longleftrightarrow> val = None"
    by (rule safe_str_None_iff)
next
  assume pos: "0 < n"
  have "prefix (take (nat n) (str v)) (str v)"
    by (rule take_is_prefix)
  moreover have "length (take (nat n) (str v)) \<le> nat n"
    by simp
  ultimately show "\<exists>s. safe_str str (Some v) (Some n) = Some s
      \<and> prefix s (str v) \<and> length s \<le> nat n \<and> s = take (nat n) (str v)"
    using safe_str_positive [OF pos, of str v] by blast
next
  assume "max_len = None \<or> max_len = Some 0"
  then show "safe_str str (Some v) max_len = Some (str v)"
    by (rule safe_str_unbounded)
qed

theorem C10_safe_str_witness:
  "safe_str (\<lambda>s. s) (Some ''Toronto'') (Some 3) = Some ''Tor''
   \<and> safe_str (\<lambda>s. s) (Some ''Toronto'') None = Some ''Toronto''
   \<and> safe_str (\<lambda>s. s) (None :: string option) (Some 3) = None"
  using C10_safe_str [of "\<lambda>s. s" "None :: string option" "Some 3" 3 "''Toronto''"]
    C10_safe_str [of "\<lambda>s. s" "Some ''Toronto''" None 3 "''Toronto''"]
  by simp

section \<open>The search query\<close>

lemma ends_with_escape_tail:
  "\<not> ends_with_escape (p # ps) \<Longrightarrow> p \<noteq> CHR 0x5C \<Longrightarrow> \<not> ends_with_escape ps"
  by (cases ps) auto

lemma like_total: "\<not> ends_with_escape pat \<Longrightarrow> \<not> isl (like s pat)"
proof (induction s pat rule: like.induct)
  case (1 s)
  then show ?case by simp
next
  case (2 s p ps)
  show ?case
  proof (cases "p = CHR 0x5C")
    case True
    with "2.prems" obtain q qs where ps: "ps = q # qs" and qs: "\<not> ends_with_escape qs"
      by (cases ps) auto
    show ?thesis
    proof (cases s)
      case Nil
      with True show ?thesis by simp
    next
      case (Cons c s')
      with True ps qs "2.IH"(4) [of c s' q qs] show ?thesis
        by simp
    qed
  next
    case False
    with "2.prems" have tail: "\<not> ends_with_escape ps"
      by (rule ends_with_escape_tail)
    show ?thesis
    proof (cases "p = CHR ''%''")
      case True
      note pct = this
      from "2.IH"(1) [OF True tail] obtain b where b: "like s ps = Inr b"
        by (cases "like s ps") auto
      show ?thesis
      proof (cases s)
        case Nil
        with b pct show ?thesis by (cases b) simp_all
      next
        case (Cons c s')
        show ?thesis
        proof (cases b)
          case True
          with b pct show ?thesis by simp
        next
          case False
          with "2.IH"(2) [OF pct b _ Cons] "2.prems" have "\<not> isl (like s' (p # ps))"
            by simp
          with b False pct Cons show ?thesis by simp
        qed
      qed
    next
      case False
      note npct = this
      show ?thesis
      proof (cases s)
        case Nil
        with npct show ?thesis by simp
      next
        case (Cons c s')
        with npct \<open>p \<noteq> CHR 0x5C\<close> tail "2.IH"(3) [OF npct Cons] "2.IH"(5) [OF npct Cons]
        show ?thesis by auto
      qed
    qed
  qed
qed

lemma ends_with_escape_percent: "\<not> ends_with_escape (xs @ ''%'')"
  by (induction xs rule: ends_with_escape.induct) auto

lemma lower_char_percent: "lower_char CHR ''%'' = CHR ''%''"
  by (simp add: lower_char_def)

lemma lower_pattern: "lower (''%'' @ c @ ''%'') = (CHR ''%'' # lower c) @ ''%''"
  by (simp add: lower_def lower_char_percent)

lemma city_pattern_total: "\<not> isl (like s (lower (''%'' @ c @ ''%'')))"
  unfolding lower_pattern by (rule like_total) (rule ends_with_escape_percent)

lemma holds_total: "condition_ok c \<Longrightarrow> \<not> isl (holds c r)"
proof (cases c)
  case (City_like pat)
  assume "condition_ok c"
  with City_like have "\<not> isl (like (lower (the (city r))) (lower pat))"
    by (simp add: like_total)
  with City_like show ?thesis
    by (cases "city r"; cases "like (lower (the (city r))) (lower pat)") auto
qed simp_all

lemma sql_and_True: "sql_and a b = Some True \<longleftrightarrow> a = Some True \<and> b = Some True"
  by (cases "(a, b)" rule: sql_and.cases) auto

lemma where_clause_total:
  "list_all condition_ok cs \<Longrightarrow>
     \<exists>v. where_clause cs r = Inr v \<and> (v = Some True \<longleftrightarrow> satisfies_all cs r)"
proof (induction cs)
  case Nil
  show ?case by (simp add: satisfies_all_def)
next
  case (Cons c cs)
  then obtain v where v: "where_clause cs r = Inr v" "v = Some True \<longleftrightarrow> satisfies_all cs r"
    by auto
  from Cons.prems have "\<not> isl (holds c r)"
    by (simp add: holds_total)
  then obtain a where a: "holds c r = Inr a"
    by (cases "holds c r") auto
  with v show ?case
    by (simp add: sql_and_True satisfies_all_def satisfies_def)
qed

lemma select_where_filter:
  "list_all condition_ok cs \<Longrightarrow> select_where cs rows = Inr (filter (satisfies_all cs) rows)"
proof (induction rows)
  case Nil
  show ?case by simp
next
  case (Cons r rows)
  from where_clause_total [OF Cons.prems, of r]
  obtain v where "where_clause cs r = Inr v" "v = Some True \<longleftrightarrow> satisfies_all cs r"
    by blast
  with Cons show ?case by simp
qed

lemma city_like_ok: "condition_ok (City_like (''%'' @ c @ ''%''))"
  unfolding condition_ok.simps lower_pattern by (rule ends_with_escape_percent)

lemma conditions_ok: "list_all condition_ok (conditions params)"
  using city_like_ok by (simp add: conditions_def split: option.splits)

lemma conditions_supplied: "no_falsy_value params \<Longrightarrow> conditions params = supplied params"
  unfolding conditions_def supplied_def no_falsy_value_def
  by (cases "arg_city params"; cases "arg_min_price params"; cases "arg_max_price params";
      cases "arg_bedrooms params"; cases "arg_bathrooms params")
    (auto split: option.splits)

lemma select_properties_eq:
  "select_properties params d =
     Inr (take 10 (sort_key price_desc_key (filter (satisfies_all (conditions params)) (properties d))))"
  by (simp add: select_properties_def select_where_filter [OF conditions_ok])

lemma search_properties_eq:
  "search_properties params d =
     Inr (map (result_row d)
       (take 10 (sort_key price_desc_key (filter (satisfies_all (conditions params)) (properties d)))))"
  by (simp add: search_properties_def select_properties_eq)

lemmas example_defs =
  listing_def no_params_def three_listings_def eleven_listings_def

lemma price_desc_key_le:
  "price_desc_key a \<le> price_desc_key b \<longleftrightarrow> price_ge (list_price a) (list_price b)"
  by (cases "list_price a"; cases "list_price b") (auto simp: price_desc_key_def)

lemma sorted_price_desc:
  "sorted_wrt (\<lambda>a b. price_ge (list_price a) (list_price b)) (sort_key price_desc_key rows)"
proof -
  have "sorted (map price_desc_key (sort_key price_desc_key rows))"
    by (rule sorted_sort_key)
  then show ?thesis
    by (simp add: sorted_map price_desc_key_le)
qed

lemma list_price_result_row: "list_price (result_row d p) = list_price p"
  by (simp add: result_row_def selected_cols.defs search_row.defs)

lemma listing_key_result_row: "listing_key (result_row d p) = listing_key p"
  by (simp add: result_row_def selected_cols.defs search_row.defs)

lemma media_result_row:
  "media (result_row d p) = map media_cols.truncate (select_media d (listing_key p))"
  by (simp add: result_row_def selected_cols.defs search_row.defs)

lemma photo_count_result_row: "photo_count (result_row d p) = photo_count_of d (listing_key p)"
  by (simp add: result_row_def selected_cols.defs search_row.defs)

lemma selected_result_row: "selected_cols.truncate (result_row d p) = selected_cols.truncate p"
  by (simp add: result_row_def selected_cols.defs search_row.defs)

lemma lower_examples:
  "lower ''Toronto'' = ''toronto''" "lower ''Ottawa'' = ''ottawa''"
  "lower ''%toronto%'' = ''%toronto%''"
  by (simp_all add: lower_def lower_char_def)

text \<open>
  Claim C5. Whatever the filters and the table, \<open>search_properties\<close> returns at most 10
  rows, in descending order of \<open>list_price\<close>. The order is PostgreSQL's: rows whose price
  is null come first; of two priced rows the later one is never the dearer.
\<close>

theorem C5_sorted_and_capped:
  "\<exists>rs. search_properties params d = Inr rs
     \<and> length rs \<le> 10
     \<and> sorted_wrt (\<lambda>a b. price_ge (list_price a) (list_price b)) rs
     \<and> (\<forall>i j p q. i < j \<and> j < length rs
            \<and> list_price (rs ! i) = Some p \<and> list_price (rs ! j) = Some q \<longrightarrow> q \<le> p)"
proof -
  define rows where
    "rows = take 10 (sort_key price_desc_key (filter (satisfies_all (conditions params)) (properties d)))"
  define rs where "rs = map (result_row d) rows"
  have res: "search_properties params d = Inr rs"
    by (simp add: rs_def rows_def search_properties_eq)
  have len: "length rs \<le> 10"
    by (simp add: rs_def rows_def)
  have "sorted_wrt (\<lambda>a b. price_ge (list_price a) (list_price b)) rows"
    unfolding rows_def by (rule sorted_wrt_take) (rule sorted_price_desc)
  then have srt: "sorted_wrt (\<lambda>a b. price_ge (list_price a) (list_price b)) rs"
    by (simp add: rs_def sorted_wrt_map list_price_result_row)
  have "q \<le> p"
    if "i < j" "j < length rs" "list_price (rs ! i) = Some p" "list_price (rs ! j) = Some q"
    for i j p q
  proof -
    from srt that(1,2) have "price_ge (list_price (rs ! i)) (list_price (rs ! j))"
      by (simp add: sorted_wrt_iff_nth_less)
    with that(3,4) show ?thesis by simp
  qed
  with res len srt show ?thesis by blast
qed

theorem C5_sorted_and_capped_witness:
  "\<exists>rs. search_properties no_params three_listings = Inr rs
     \<and> map list_price rs = [None, Some 95000000, Some 90000000]
     \<and> length rs \<le> 10"
proof -
  have ev: "map_sum (\<lambda>e. e) (map list_price) (search_properties no_params three_listings)
      = Inr [None, Some 95000000, Some 90000000]"
    by (simp add: search_properties_eq conditions_def satisfies_all_def example_defs
        price_desc_key_def list_price_result_row)
  from C5_sorted_and_capped [of no_params three_listings] obtain rs where
    "search_properties no_params three_listings = Inr rs" "length rs \<le> 10"
    by blast
  with ev show ?thesis by auto
qed

text \<open>
  Claim C1, as amended. For a call that gives no filter the value \<open>0\<close> or the empty
  string, \<open>search_properties\<close> succeeds and returns the first 10, in descending order of
  price, of the rows that satisfy every filter given with a value other than \<open>None\<close>:
  each returned row satisfies all of them, and when at most 10 rows do, all of them are
  returned. A filter that is omitted or \<open>None\<close> contributes no condition. The returned
  rows carry the selected columns of those table rows unchanged.
\<close>

theorem C1_supplied_conjunction:
  assumes "no_falsy_value params"
  shows "\<exists>rows. select_properties params d = Inr rows
     \<and> search_properties params d = Inr (map (result_row d) rows)
     \<and> map selected_cols.truncate (map (result_row d) rows) = map selected_cols.truncate rows
     \<and> rows = take 10 (sort_key price_desc_key
                 (filter (satisfies_all (supplied params)) (properties d)))
     \<and> set rows \<subseteq> {r \<in> set (properties d). satisfies_all (supplied params) r}
     \<and> (length (filter (satisfies_all (supplied params)) (properties d)) \<le> 10 \<longrightarrow>
          set rows = {r \<in> set (properties d). satisfies_all (supplied params) r})"
proof -
  define matching where "matching = filter (satisfies_all (supplied params)) (properties d)"
  define rows where "rows = take 10 (sort_key price_desc_key matching)"
  from assms have cs: "conditions params = supplied params"
    by (rule conditions_supplied)
  have sel: "select_properties params d = Inr rows"
    by (simp add: select_properties_eq cs rows_def matching_def)
  have res: "search_properties params d = Inr (map (result_row d) rows)"
    by (simp add: search_properties_eq cs rows_def matching_def)
  have cols: "map selected_cols.truncate (map (result_row d) rows) = map selected_cols.truncate rows"
    by (simp add: selected_result_row)
  have "set rows \<subseteq> set (sort_key price_desc_key matching)"
    unfolding rows_def by (rule set_take_subset)
  then have sub: "set rows \<subseteq> {r \<in> set (properties d). satisfies_all (supplied params) r}"
    by (auto simp: matching_def)
  have all: "set rows = {r \<in> set (properties d). satisfies_all (supplied params) r}"
    if "length matching \<le> 10"
  proof -
    from that have "rows = sort_key price_desc_key matching"
      by (simp add: rows_def)
    then show ?thesis by (auto simp: matching_def)
  qed
  from sel res cols sub all show ?thesis
    unfolding rows_def matching_def by blast
qed

theorem C1_supplied_conjunction_witness:
  "no_falsy_value toronto_under_a_million
   \<and> supplied toronto_under_a_million = [City_like ''%toronto%'', List_price_le 100000000]
   \<and> map_sum (\<lambda>e. e) (map listing_key) (search_properties toronto_under_a_million three_listings)
       = Inr [Some ''A1'']"
proof -
  have nf: "no_falsy_value toronto_under_a_million"
    by (simp add: no_falsy_value_def toronto_under_a_million_def no_params_def)
  have sup: "supplied toronto_under_a_million = [City_like ''%toronto%'', List_price_le 100000000]"
    by (simp add: supplied_def toronto_under_a_million_def no_params_def)
  have matching: "filter (satisfies_all (supplied toronto_under_a_million)) (properties three_listings)
      = [listing ''A1'' (Some ''Toronto'') (Some 90000000) (Some 3)]"
    unfolding sup
    by (simp add: satisfies_all_def satisfies_def three_listings_def listing_def lower_examples)
  from C1_supplied_conjunction [OF nf, of three_listings] obtain rows where
    res: "search_properties toronto_under_a_million three_listings
            = Inr (map (result_row three_listings) rows)"
    and rows: "rows = take 10 (sort_key price_desc_key
        (filter (satisfies_all (supplied toronto_under_a_million)) (properties three_listings)))"
    by blast
  from rows have "rows = [listing ''A1'' (Some ''Toronto'') (Some 90000000) (Some 3)]"
    unfolding matching by simp
  with res have "map_sum (\<lambda>e. e) (map listing_key)
      (search_properties toronto_under_a_million three_listings) = Inr [Some ''A1'']"
    by (simp add: listing_key_result_row listing_def)
  with nf sup show ?thesis by simp
qed

text \<open>
  The claim as first stated fails twice. With no filter at all every one of eleven rows
  satisfies the conjunction, yet ten are returned. And giving \<open>bedrooms\<close> as \<open>None\<close> is
  the same as omitting it: on a table whose rows all have a bedroom count the answer is
  the whole table, not the rows matching a null.
\<close>

theorem C1_counterexample:
  "length (filter (satisfies_all (supplied no_params)) (properties eleven_listings)) = 11
   \<and> map_sum (\<lambda>e. e) (map listing_key) (search_properties no_params eleven_listings) =
       Inr [Some ''K11'', Some ''K10'', Some ''K09'', Some ''K08'', Some ''K07'', Some ''K06'', Some ''K05'', Some ''K04'', Some ''K03'', Some ''K02'']
   \<and> search_properties (no_params\<lparr>arg_bedrooms := Given None\<rparr>) three_listings
       = search_properties no_params three_listings
   \<and> map_sum (\<lambda>e. e) (map listing_key)
         (search_properties (no_params\<lparr>arg_bedrooms := Given None\<rparr>) three_listings)
       = Inr [Some ''A2'', Some ''A3'', Some ''A1'']"
proof (intro conjI)
  show "length (filter (satisfies_all (supplied no_params)) (properties eleven_listings)) = 11"
    by (simp add: supplied_def satisfies_all_def no_params_def eleven_listings_def)
  show "map_sum (\<lambda>e. e) (map listing_key) (search_properties no_params eleven_listings) =
       Inr [Some ''K11'', Some ''K10'', Some ''K09'', Some ''K08'', Some ''K07'', Some ''K06'', Some ''K05'', Some ''K04'', Some ''K03'', Some ''K02'']"
    by (simp add: search_properties_eq conditions_def satisfies_all_def example_defs
        price_desc_key_def listing_key_result_row)
  show same: "search_properties (no_params\<lparr>arg_bedrooms := Given None\<rparr>) three_listings
       = search_properties no_params three_listings"
    by (simp add: search_properties_eq conditions_def no_params_def)
  show "map_sum (\<lambda>e. e) (map listing_key)
         (search_properties (no_params\<lparr>arg_bedrooms := Given None\<rparr>) three_listings)
       = Inr [Some ''A2'', Some ''A3'', Some ''A1'']"
    unfolding same
    by (simp add: search_properties_eq conditions_def satisfies_all_def example_defs
        price_desc_key_def listing_key_result_row)
qed

section \<open>Media of a search result\<close>

lemma media_order_key_le: "media_order_key a \<le> media_order_key b \<longleftrightarrow> media_before a b"
  by (cases "display_order a"; cases "display_order b")
    (auto simp: media_order_key_def media_before_def)

lemma sorted_select_media: "sorted_wrt media_before (select_media d k)"
proof -
  have "sorted (map media_order_key (sort_key media_order_key (filter (media_of k) (property_media d))))"
    by (rule sorted_sort_key)
  then have "sorted_wrt media_before (sort_key media_order_key (filter (media_of k) (property_media d)))"
    by (simp add: sorted_map media_order_key_le)
  then show ?thesis
    unfolding select_media_def by (rule sorted_wrt_take)
qed

lemma set_select_media:
  "set (select_media d k) \<subseteq> {m \<in> set (property_media d). media_of k m}"
proof -
  have "set (select_media d k) \<subseteq> set (sort_key media_order_key (filter (media_of k) (property_media d)))"
    unfolding select_media_def by (rule set_take_subset)
  then show ?thesis by auto
qed

lemma length_select_media: "length (select_media d k) \<le> 5"
  by (simp add: select_media_def)

lemma media_before_primary: "media_before a b \<Longrightarrow> is_primary b \<Longrightarrow> is_primary a"
  by (auto simp: media_before_def)

lemma is_primary_truncate: "is_primary (media_cols.truncate m) = is_primary m"
  by (simp add: media_cols.defs)

lemma media_url_truncate: "media_url (media_cols.truncate m) = media_url m"
  by (simp add: media_cols.defs)

lemma hd_sort_key_le:
  assumes "x \<in> set xs"
  shows "sort_key f xs \<noteq> [] \<and> f (hd (sort_key f xs)) \<le> f x"
proof -
  let ?ys = "sort_key f xs"
  from assms have x: "x \<in> set ?ys" by simp
  then have ne: "?ys \<noteq> []" by (metis empty_iff empty_set)
  then obtain y ys where ys: "?ys = y # ys" by (cases ?ys) auto
  have "sorted (map f ?ys)" by (rule sorted_sort_key)
  with ys x have "f y \<le> f x" by auto
  with ys ne show ?thesis by simp
qed

lemma primary_first:
  assumes "m \<in> set (property_media d)" "media_of k m" "is_primary m"
  shows "select_media d k \<noteq> [] \<and> is_primary (hd (select_media d k))"
proof -
  let ?xs = "filter (media_of k) (property_media d)"
  from assms have "m \<in> set ?xs" by simp
  from hd_sort_key_le [OF this, of media_order_key]
  have ne: "sort_key media_order_key ?xs \<noteq> []"
    and le: "media_order_key (hd (sort_key media_order_key ?xs)) \<le> media_order_key m"
    by simp_all
  from le assms(3) have "is_primary (hd (sort_key media_order_key ?xs))"
    by (simp add: media_order_key_le media_before_primary)
  with ne show ?thesis
    by (simp add: select_media_def)
qed

lemma length_map_filter_le: "length (List.map_filter f xs) \<le> length xs"
  by (simp add: List.map_filter_def)

lemma length_preview_urls: "length (preview_urls r) \<le> 3"
proof -
  have "length (preview_urls r) \<le> length (take 3 (media r))"
    unfolding preview_urls_def by (rule length_map_filter_le)
  then show ?thesis by simp
qed

lemma search_result_rows:
  assumes "search_properties params d = Inr rs" "r \<in> set rs"
  shows "\<exists>p \<in> set (properties d). r = result_row d p"
proof -
  from assms(1) have "rs = map (result_row d)
      (take 10 (sort_key price_desc_key (filter (satisfies_all (conditions params)) (properties d))))"
    by (simp add: search_properties_eq)
  with assms(2) obtain p where
    "p \<in> set (take 10 (sort_key price_desc_key (filter (satisfies_all (conditions params)) (properties d))))"
    "r = result_row d p"
    by auto
  moreover from this(1) have "p \<in> set (properties d)"
    by (auto dest: in_set_takeD)
  ultimately show ?thesis by blast
qed

lemma length_media_urls: "length (media_urls props) \<le> 9"
  by (simp add: media_urls_def)

text \<open>
  Claim C6. For every row that \<open>search_properties\<close> returns, \<open>media\<close> holds the
  selected columns of at most 5 media rows of that listing, ordered with the primary-flagged
  rows first and, within the flagged and within the unflagged rows, in ascending display
  order (a null display order last). When the listing has a primary-flagged media row, the
  slice is not empty and starts with a primary-flagged row. Of each property at most 3 media
  items reach the caller as previews: \<open>process_message\<close> takes the URLs of the first 3
  (\<open>preview_urls\<close>) and main.py formats the first 3 (\<open>formatted_media_urls\<close>).
\<close>

theorem C6_media_slice:
  assumes "search_properties params d = Inr rs" and "r \<in> set rs"
  shows "media r = map media_cols.truncate (select_media d (listing_key r))
     \<and> set (select_media d (listing_key r))
          \<subseteq> {m \<in> set (property_media d). media_of (listing_key r) m}
     \<and> length (media r) \<le> 5
     \<and> sorted_wrt media_before (select_media d (listing_key r))
     \<and> sorted_wrt (\<lambda>a b. is_primary b \<longrightarrow> is_primary a) (media r)
     \<and> ((\<exists>m \<in> set (property_media d). media_of (listing_key r) m \<and> is_primary m) \<longrightarrow>
          media r \<noteq> [] \<and> is_primary (hd (media r)))
     \<and> length (preview_urls r) \<le> 3
     \<and> length (formatted_media_urls r) \<le> 3"
proof -
  let ?ms = "select_media d (listing_key r)"
  from search_result_rows [OF assms] obtain p where r: "r = result_row d p"
    by blast
  have m: "media r = map media_cols.truncate ?ms"
    by (simp add: r media_result_row listing_key_result_row)
  have len: "length (media r) \<le> 5"
    by (simp add: m length_select_media)
  have srt: "sorted_wrt media_before ?ms"
    by (rule sorted_select_media)
  then have "sorted_wrt (\<lambda>a b. is_primary b \<longrightarrow> is_primary a) ?ms"
    by (rule sorted_wrt_mono_rel [rotated]) (auto dest: media_before_primary)
  then have prim: "sorted_wrt (\<lambda>a b. is_primary b \<longrightarrow> is_primary a) (media r)"
    by (simp add: m sorted_wrt_map is_primary_truncate)
  have first: "media r \<noteq> [] \<and> is_primary (hd (media r))"
    if "\<exists>m \<in> set (property_media d). media_of (listing_key r) m \<and> is_primary m"
  proof -
    from that obtain x where "x \<in> set (property_media d)" "media_of (listing_key r) x" "is_primary x"
      by blast
    then have "?ms \<noteq> [] \<and> is_primary (hd ?ms)"
      by (rule primary_first)
    then show ?thesis
      by (simp add: m hd_map is_primary_truncate)
  qed
  have "length (formatted_media_urls r) \<le> 3"
    by (simp add: formatted_media_urls_def)
  with m set_select_media [of d "listing_key r"] len srt prim first length_preview_urls [of r]
  show ?thesis by blast
qed

theorem C6_media_slice_witness:
  "\<exists>r. search_properties no_params listing_with_photos = Inr [r]
     \<and> map media_url (media r)
         = [Some ''3.jpg'', Some ''2.jpg'', Some ''1.jpg'', Some ''5.jpg'', Some ''6.jpg'']
     \<and> map is_primary (media r) = [True, False, False, False, False]
     \<and> preview_urls r = [''3.jpg'', ''2.jpg'', ''1.jpg'']"
proof -
  define r where
    "r = result_row listing_with_photos (listing ''A1'' (Some ''Toronto'') (Some 90000000) (Some 3))"
  have ev: "search_properties no_params listing_with_photos = Inr [r]"
    by (simp add: search_properties_eq conditions_def satisfies_all_def no_params_def
        listing_with_photos_def r_def)
  have key: "listing_key r = Some ''A1''"
    by (simp add: r_def listing_key_result_row listing_def)
  have sel: "select_media listing_with_photos (Some ''A1'')
      = [photo ''A1'' ''3.jpg'' True (Some 9), photo ''A1'' ''2.jpg'' False (Some 1),
         photo ''A1'' ''1.jpg'' False (Some 2), photo ''A1'' ''5.jpg'' False (Some 3),
         photo ''A1'' ''6.jpg'' False (Some 4)]"
    by (simp add: select_media_def listing_with_photos_def media_of_def media_order_key_def
        photo_def)
  have mem: "r \<in> set [r]"
    by simp
  have m: "media r = map media_cols.truncate (select_media listing_with_photos (listing_key r))"
    by (rule C6_media_slice [OF ev mem, THEN conjunct1])
  have urls: "map media_url (media r)
      = [Some ''3.jpg'', Some ''2.jpg'', Some ''1.jpg'', Some ''5.jpg'', Some ''6.jpg'']"
    unfolding m key sel by (simp add: media_url_truncate photo_def)
  have prim: "map is_primary (media r) = [True, False, False, False, False]"
    unfolding m key sel by (simp add: is_primary_truncate photo_def)
  have pv: "preview_urls r = [''3.jpg'', ''2.jpg'', ''1.jpg'']"
    unfolding preview_urls_def m key sel
    by (simp add: media_url_truncate photo_def map_filter_simps)
  show ?thesis
    by (rule exI [of _ r]) (simp only: ev urls prim pv simp_thms)
qed

section \<open>Cities\<close>

lemma count_list_map_filter:
  "count_list (List.map_filter f xs) y = length (filter (\<lambda>x. f x = Some y) xs)"
  by (induction xs) (auto simp: map_filter_simps split: option.splits)

lemma set_map_filter: "set (List.map_filter f xs) = {y. \<exists>x \<in> set xs. f x = Some y}"
  by (induction xs) (auto simp: map_filter_simps split: option.splits)

lemma sorted_take_drop:
  assumes "sorted_wrt P xs" "a \<in> set (take n xs)" "b \<in> set (drop n xs)"
  shows "P a b"
proof -
  from assms(1) have "sorted_wrt P (take n xs @ drop n xs)" by simp
  with assms(2,3) show ?thesis
    unfolding sorted_wrt_append by blast
qed

lemma in_take_or_drop: "x \<in> set xs \<Longrightarrow> x \<in> set (take n xs) \<or> x \<in> set (drop n xs)"
  by (metis Un_iff append_take_drop_id set_append)

lemma city_counts_groups:
  fixes d
  defines "cs \<equiv> List.map_filter city (properties d)"
  defines "groups \<equiv> map (\<lambda>c. (c, count_list cs c)) (remdups cs)"
  shows "city_counts d = take 20 (sort_key (\<lambda>(c, n). - int n) groups)"
    and "distinct (map fst groups)"
    and "set groups = {(c, n). 0 < n \<and> n = rows_in_city d c}"
proof -
  show "city_counts d = take 20 (sort_key (\<lambda>(c, n). - int n) groups)"
    by (simp add: city_counts_def groups_def cs_def Let_def)
  show "distinct (map fst groups)"
    by (simp add: groups_def comp_def)
  have cnt: "count_list cs c = rows_in_city d c" for c
    by (simp add: cs_def rows_in_city_def count_list_map_filter)
  have mem: "c \<in> set cs \<longleftrightarrow> 0 < rows_in_city d c" for c
    by (auto simp: cs_def rows_in_city_def set_map_filter filter_empty_conv)
  show "set groups = {(c, n). 0 < n \<and> n = rows_in_city d c}"
    by (auto simp: groups_def cnt mem)
qed

text \<open>
  Claim C7. \<open>city_counts\<close> is the result of the query in \<open>get_available_cities\<close>, which
  returns its rows formatted as text. It has at most 20 rows, one per city, each with a city
  that some listing has and the number of listings of that city as the direct count gives
  it; the counts never increase along the list; and a city of the table that is missing from
  it was cut by the limit: then there are 20 rows and none has a smaller count.
\<close>

theorem C7_city_counts:
  "length (city_counts d) \<le> 20
   \<and> distinct (map fst (city_counts d))
   \<and> (\<forall>(c, n) \<in> set (city_counts d). 0 < n \<and> n = rows_in_city d c)
   \<and> sorted_wrt (\<lambda>a b. snd b \<le> snd a) (city_counts d)
   \<and> (\<forall>c. 0 < rows_in_city d c \<longrightarrow>
         (c, rows_in_city d c) \<in> set (city_counts d)
         \<or> length (city_counts d) = 20
            \<and> (\<forall>(c', n') \<in> set (city_counts d). rows_in_city d c \<le> n'))
   \<and> get_available_cities d
       = map (\<lambda>(c, n). c @ '' ('' @ str_nat n @ '' properties)'') (city_counts d)"
proof -
  define groups where
    "groups = map (\<lambda>c. (c, count_list (List.map_filter city (properties d)) c))
                (remdups (List.map_filter city (properties d)))"
  define sorted_groups where "sorted_groups = sort_key (\<lambda>(c, n). - int n) groups"
  have cc: "city_counts d = take 20 sorted_groups"
    and dist: "distinct (map fst groups)"
    and grp: "set groups = {(c, n). 0 < n \<and> n = rows_in_city d c}"
    unfolding sorted_groups_def groups_def by (rule city_counts_groups)+
  have len: "length (city_counts d) \<le> 20"
    by (simp add: cc)
  have "distinct (map fst sorted_groups)"
    using dist by (simp add: sorted_groups_def distinct_map)
  then have "distinct (take 20 (map fst sorted_groups))"
    by (rule distinct_take)
  then have d2: "distinct (map fst (city_counts d))"
    by (simp add: cc take_map)
  have sub: "set (city_counts d) \<subseteq> set groups"
    unfolding cc sorted_groups_def using set_take_subset [of 20 "sort_key (\<lambda>(c, n). - int n) groups"]
    by simp
  have cnt: "\<forall>(c, n) \<in> set (city_counts d). 0 < n \<and> n = rows_in_city d c"
  proof (intro ballI, clarify)
    fix c n
    assume "(c, n) \<in> set (city_counts d)"
    with sub have "(c, n) \<in> set groups" by blast
    then show "0 < n \<and> n = rows_in_city d c"
      unfolding grp by simp
  qed
  have "sorted (map (\<lambda>(c, n). - int n) sorted_groups)"
    unfolding sorted_groups_def by (rule sorted_sort_key)
  then have sg: "sorted_wrt (\<lambda>a b. snd b \<le> snd a) sorted_groups"
    by (simp add: sorted_map case_prod_unfold)
  then have srt: "sorted_wrt (\<lambda>a b. snd b \<le> snd a) (city_counts d)"
    unfolding cc by (rule sorted_wrt_take)
  have top: "(c, rows_in_city d c) \<in> set (city_counts d)
      \<or> length (city_counts d) = 20
         \<and> (\<forall>(c', n') \<in> set (city_counts d). rows_in_city d c \<le> n')"
    if "0 < rows_in_city d c" for c
  proof -
    from that grp have "(c, rows_in_city d c) \<in> set sorted_groups"
      by (simp add: sorted_groups_def)
    then consider "(c, rows_in_city d c) \<in> set (take 20 sorted_groups)"
      | "(c, rows_in_city d c) \<in> set (drop 20 sorted_groups)"
      using in_take_or_drop [of "(c, rows_in_city d c)" sorted_groups 20] by blast
    then show ?thesis
    proof cases
      case 1
      then show ?thesis by (simp add: cc)
    next
      case 2
      then have "20 < length sorted_groups"
        by (cases "20 < length sorted_groups") auto
      then have l: "length (city_counts d) = 20"
        by (simp add: cc)
      have "rows_in_city d c \<le> snd x" if "x \<in> set (city_counts d)" for x
        using sorted_take_drop [OF sg, of x 20 "(c, rows_in_city d c)"] that 2
        by (simp add: cc)
      with l show ?thesis by auto
    qed
  qed
  have fmt: "get_available_cities d
       = map (\<lambda>(c, n). c @ '' ('' @ str_nat n @ '' properties)'') (city_counts d)"
    by (simp add: get_available_cities_def)
  from top have top': "\<forall>c. 0 < rows_in_city d c \<longrightarrow>
         (c, rows_in_city d c) \<in> set (city_counts d)
         \<or> length (city_counts d) = 20
            \<and> (\<forall>(c', n') \<in> set (city_counts d). rows_in_city d c \<le> n')"
    by (intro allI impI)
  show ?thesis
    by (intro conjI) (fact len d2 cnt srt top' fmt)+
qed

theorem C7_city_counts_witness:
  "city_counts four_listings = [(''Toronto'', 2), (''Ottawa'', 1)]
   \<and> rows_in_city four_listings ''Toronto'' = 2
   \<and> get_available_cities four_listings = [''Toronto (2 properties)'', ''Ottawa (1 properties)'']"
proof -
  have cc: "city_counts four_listings = [(''Toronto'', 2), (''Ottawa'', 1)]"
    by (simp add: city_counts_def four_listings_def listing_def map_filter_simps)
  have n: "rows_in_city four_listings ''Toronto'' = 2"
    by (simp add: rows_in_city_def four_listings_def listing_def)
  have "get_available_cities four_listings
      = map (\<lambda>(c, n). c @ '' ('' @ str_nat n @ '' properties)'') (city_counts four_listings)"
    by (rule C7_city_counts [of four_listings, THEN conjunct2, THEN conjunct2, THEN conjunct2,
          THEN conjunct2, THEN conjunct2])
  then have "get_available_cities four_listings
      = [''Toronto (2 properties)'', ''Ottawa (1 properties)'']"
    unfolding cc by simp
  with cc n show ?thesis by simp
qed

section \<open>Fetching a page\<close>

lemma fetch_properties_transport:
  "property_endpoint env top_n skip = Transport_failure \<Longrightarrow>
     fetch_properties env top_n skip = (Inl Transport_error, [Property_request top_n skip])"
  by (simp add: fetch_properties_def)

lemma fetch_properties_status:
  "property_endpoint env top_n skip = Response status_code b \<Longrightarrow> status_code \<noteq> 200 \<Longrightarrow>
     fetch_properties env top_n skip
       = (Inr [], [Property_request top_n skip, Property_fetch_failed status_code])"
  by (simp add: fetch_properties_def)

text \<open>
  Claim C3 holds for a status other than 200 (\<open>fetch_properties_status\<close>: an empty page
  and one diagnostic), but not for a transport failure: \<open>httpx.get\<close> raises and nothing
  in \<open>fetch_properties\<close> catches it, so the exception reaches the caller.
\<close>

theorem C3_transport_failure_raises:
  "fetch_properties unreachable_remote 100 0 = (Inl Transport_error, [Property_request 100 0])"
  by (simp add: fetch_properties_def unreachable_remote_def)

section \<open>What the pipeline keeps\<close>

lemma listing_key_set_excluded: "listing_key (set_excluded t r) = listing_key r"
  by (simp add: set_excluded_def)

lemma listing_key_new_row:
  "listing_key (property_cols.extend t (properties_row.fields now)) = listing_key t"
  by (simp add: property_cols.defs properties_row.defs)

lemma keys_on_conflict_update:
  "map listing_key (on_conflict_update now t rs) =
     (if listing_key t \<in> set (map listing_key rs) then map listing_key rs
      else map listing_key rs @ [listing_key t])"
  by (induction rs) (auto simp: listing_key_set_excluded listing_key_new_row)

lemma keys_on_conflict_update_subset:
  "set (map listing_key rs) \<subseteq> set (map listing_key (on_conflict_update now t rs))"
  unfolding keys_on_conflict_update by (simp del: set_map) auto

lemma upsert_property_keeps:
  assumes "upsert_property now t d = Inr d'"
  shows "listing_keys d \<subseteq> listing_keys d'" and "property_media d' = property_media d"
proof -
  from assms have d': "d' = d\<lparr>properties := on_conflict_update now (property_stored t) (properties d)\<rparr>"
    by (simp add: upsert_property_def split: option.splits)
  show "listing_keys d \<subseteq> listing_keys d'"
    unfolding listing_keys_def d' using keys_on_conflict_update_subset [of "properties d" now "property_stored t"]
    by simp
  show "property_media d' = property_media d"
    by (simp add: d')
qed

lemma insert_media_row_keeps:
  "insert_media_row m d = Inr d' \<Longrightarrow> properties d' = properties d"
  by (auto simp: insert_media_row_def split: option.splits)

lemma execute_batch_upsert_keeps:
  "execute_batch (upsert_property now) ts d = (e, d') \<Longrightarrow> listing_keys d \<subseteq> listing_keys d'"
proof (induction ts arbitrary: d)
  case Nil
  then show ?case by simp
next
  case (Cons t ts)
  show ?case
  proof (cases "upsert_property now t d")
    case (Inl err)
    with Cons.prems show ?thesis by simp
  next
    case (Inr d1)
    with Cons.prems have "execute_batch (upsert_property now) ts d1 = (e, d')" by simp
    then have "listing_keys d1 \<subseteq> listing_keys d'" by (rule Cons.IH)
    with upsert_property_keeps(1) [OF Inr] show ?thesis by (rule subset_trans)
  qed
qed

lemma execute_batch_media_keeps:
  "execute_batch insert_media_row ms d = (e, d') \<Longrightarrow> properties d' = properties d"
proof (induction ms arbitrary: d)
  case Nil
  then show ?case by simp
next
  case (Cons m ms)
  show ?case
  proof (cases "insert_media_row m d")
    case (Inl err)
    with Cons.prems show ?thesis by simp
  next
    case (Inr d1)
    with Cons.prems have "execute_batch insert_media_row ms d1 = (e, d')" by simp
    then have "properties d' = properties d1" by (rule Cons.IH)
    with insert_media_row_keeps [OF Inr] show ?thesis by simp
  qed
qed

lemma insert_properties_keeps:
  assumes "clean c"
  shows "clean (fst (insert_properties now props c))"
    and "listing_keys (committed c) \<subseteq> listing_keys (committed (fst (insert_properties now props c)))"
proof -
  obtain e w where ex: "execute_batch (upsert_property now) (map property_tuple props) (working c) = (e, w)"
    by (cases "execute_batch (upsert_property now) (map property_tuple props) (working c)")
  from execute_batch_upsert_keeps [OF ex] assms
  have sub: "listing_keys (committed c) \<subseteq> listing_keys w"
    by (simp add: clean_def)
  show "clean (fst (insert_properties now props c))"
    using assms ex
    by (cases e) (auto simp: insert_properties_def clean_def commit_def rollback_def Let_def)
  show "listing_keys (committed c) \<subseteq> listing_keys (committed (fst (insert_properties now props c)))"
    using assms ex sub
    by (cases e) (auto simp: insert_properties_def clean_def commit_def rollback_def Let_def)
qed

lemma insert_media_keeps:
  assumes "clean c"
  shows "clean (fst (insert_media ms c))"
    and "properties (committed (fst (insert_media ms c))) = properties (committed c)"
proof -
  obtain e w where ex: "execute_batch insert_media_row ms (working c) = (e, w)"
    by (cases "execute_batch insert_media_row ms (working c)")
  from execute_batch_media_keeps [OF ex] assms
  have same: "properties w = properties (committed c)"
    by (simp add: clean_def)
  show "clean (fst (insert_media ms c))"
    using assms ex
    by (cases e) (auto simp: insert_media_def clean_def commit_def rollback_def)
  show "properties (committed (fst (insert_media ms c))) = properties (committed c)"
    using assms ex same
    by (cases e) (auto simp: insert_media_def clean_def commit_def rollback_def)
qed

lemma fetch_media_for_properties_keeps:
  assumes "clean c"
  shows "clean (fst (fetch_media_for_properties media_get ks c))"
    and "properties (committed (fst (fetch_media_for_properties media_get ks c)))
           = properties (committed c)"
proof -
  define media_records where
    "media_records = concat (map fst (map (\<lambda>(i, key). media_response key (media_get i key)) (enumerate 0 ks)))"
  have c': "fst (fetch_media_for_properties media_get ks c)
      = (if media_records \<noteq> [] then fst (insert_media media_records c) else c)"
    by (simp add: fetch_media_for_properties_def Let_def media_records_def split: prod.splits)
  show "clean (fst (fetch_media_for_properties media_get ks c))"
    unfolding c' using assms insert_media_keeps(1) [OF assms] by simp
  show "properties (committed (fst (fetch_media_for_properties media_get ks c)))
           = properties (committed c)"
    unfolding c' using insert_media_keeps(2) [OF assms] by simp
qed

lemma requested_offsets_append [simp]:
  "requested_offsets (xs @ ys) = requested_offsets xs @ requested_offsets ys"
  by (induction xs rule: requested_offsets.induct) auto

lemma upsert_events_append [simp]:
  "upsert_events (xs @ ys) = upsert_events xs @ upsert_events ys"
  by (induction xs rule: upsert_events.induct) auto

lemma requested_offsets_concat:
  "(\<forall>xs \<in> set xss. requested_offsets xs = []) \<Longrightarrow> requested_offsets (concat xss) = []"
  by (induction xss) auto

lemma upsert_events_concat:
  "(\<forall>xs \<in> set xss. upsert_events xs = []) \<Longrightarrow> upsert_events (concat xss) = []"
  by (induction xss) auto

lemma events_insert_properties:
  "requested_offsets (snd (insert_properties now props c)) = []"
  by (simp add: insert_properties_def Let_def split: prod.splits option.splits)

lemma events_insert_media:
  "requested_offsets (snd (insert_media ms c)) = []"
  "upsert_events (snd (insert_media ms c)) = []"
  by (simp_all add: insert_media_def Let_def split: prod.splits option.splits)

lemma events_media_response:
  "requested_offsets (snd (media_response key r)) = []"
  "upsert_events (snd (media_response key r)) = []"
  by (simp_all add: media_response_def split: http_result.splits body.splits)

lemma snd_fetch_media_for_properties:
  "snd (fetch_media_for_properties media_get ks c) =
     concat (map snd (map (\<lambda>(i, key). media_response key (media_get i key)) (enumerate 0 ks)))
     @ (if concat (map fst (map (\<lambda>(i, key). media_response key (media_get i key)) (enumerate 0 ks))) \<noteq> []
        then snd (insert_media
          (concat (map fst (map (\<lambda>(i, key). media_response key (media_get i key)) (enumerate 0 ks)))) c)
        else [])"
  by (simp add: fetch_media_for_properties_def Let_def split: prod.splits)

lemma events_fetch_media:
  "requested_offsets (snd (fetch_media_for_properties media_get ks c)) = []"
  "upsert_events (snd (fetch_media_for_properties media_get ks c)) = []"
proof -
  have r: "requested_offsets (concat (map snd (map (\<lambda>(i, key). media_response key (media_get i key)) (enumerate 0 ks)))) = []"
    by (rule requested_offsets_concat) (auto simp: events_media_response)
  have u: "upsert_events (concat (map snd (map (\<lambda>(i, key). media_response key (media_get i key)) (enumerate 0 ks)))) = []"
    by (rule upsert_events_concat) (auto simp: events_media_response)
  show "requested_offsets (snd (fetch_media_for_properties media_get ks c)) = []"
    unfolding snd_fetch_media_for_properties using r by (simp add: events_insert_media)
  show "upsert_events (snd (fetch_media_for_properties media_get ks c)) = []"
    unfolding snd_fetch_media_for_properties using u by (simp add: events_insert_media)
qed

lemma conn_process_page:
  "conn (process_page env fm skip props st) =
     (if fm \<and> page_keys props \<noteq> []
      then fst (fetch_media_for_properties (media_endpoint env skip) (page_keys props)
                 (fst (insert_properties (clock env skip) props (conn st))))
      else fst (insert_properties (clock env skip) props (conn st)))"
  by (simp add: process_page_def Let_def split: prod.splits)

lemma log_process_page:
  "log (process_page env fm skip props st) =
     log st @ snd (insert_properties (clock env skip) props (conn st))
     @ (if fm \<and> page_keys props \<noteq> []
        then Fetching_media (length (page_keys props))
             # snd (fetch_media_for_properties (media_endpoint env skip) (page_keys props)
                     (fst (insert_properties (clock env skip) props (conn st))))
        else [])
     @ [Batch_total (skip div 100 + 1) (total st + length props)]"
  by (simp add: process_page_def Let_def split: prod.splits)

lemma requested_process_page:
  "requested_offsets (log (process_page env fm skip props st)) = requested_offsets (log st)"
  by (simp add: log_process_page events_insert_properties events_fetch_media)

lemma process_page_keeps:
  assumes "clean (conn st)"
  shows "clean (conn (process_page env fm skip props st))"
    and "listing_keys (committed (conn st))
           \<subseteq> listing_keys (committed (conn (process_page env fm skip props st)))"
proof -
  let ?c1 = "fst (insert_properties (clock env skip) props (conn st))"
  have c1: "clean ?c1" and k1: "listing_keys (committed (conn st)) \<subseteq> listing_keys (committed ?c1)"
    using insert_properties_keeps [OF assms] by simp_all
  show "clean (conn (process_page env fm skip props st))"
    unfolding conn_process_page using c1 fetch_media_for_properties_keeps(1) [OF c1] by simp
  show "listing_keys (committed (conn st))
           \<subseteq> listing_keys (committed (conn (process_page env fm skip props st)))"
    unfolding conn_process_page using k1 fetch_media_for_properties_keeps(2) [OF c1]
    by (simp add: listing_keys_def)
qed

lemma fetch_loop_keeps:
  "clean (conn st) \<Longrightarrow>
     clean (conn (fst (fetch_loop env fm ks st)))
     \<and> listing_keys (committed (conn st))
          \<subseteq> listing_keys (committed (conn (fst (fetch_loop env fm ks st))))"
proof (induction ks arbitrary: st)
  case Nil
  then show ?case by simp
next
  case (Cons skip rest)
  obtain res ev where f: "fetch_properties env 100 skip = (res, ev)"
    by (cases "fetch_properties env 100 skip")
  show ?case
  proof (cases res)
    case (Inl e)
    with f Cons.prems show ?thesis by simp
  next
    case (Inr props)
    show ?thesis
    proof (cases "props = []")
      case True
      with f Inr Cons.prems show ?thesis by simp
    next
      case False
      let ?st1 = "process_page env fm skip props (st\<lparr>log := log st @ ev\<rparr>)"
      from Cons.prems have "clean (conn (st\<lparr>log := log st @ ev\<rparr>))" by simp
      from process_page_keeps [OF this, of env fm skip props]
      have c1: "clean (conn ?st1)"
        and k1: "listing_keys (committed (conn st)) \<subseteq> listing_keys (committed (conn ?st1))"
        by simp_all
      from Cons.IH [OF c1] k1 f Inr False show ?thesis
        by (simp del: process_page_def) (meson subset_trans)
    qed
  qed
qed

section \<open>The pagination loop\<close>

lemma requested_fetch_properties:
  "requested_offsets (snd (fetch_properties env top_n skip)) = [skip]"
  by (simp add: fetch_properties_def split: http_result.splits body.splits)

lemma requested_fetch_loop:
  "requested_offsets (log (fst (fetch_loop env fm ks st)))
     = requested_offsets (log st) @ requested env ks"
proof (induction ks arbitrary: st)
  case Nil
  show ?case by simp
next
  case (Cons skip rest)
  obtain res ev where f: "fetch_properties env 100 skip = (res, ev)"
    by (cases "fetch_properties env 100 skip")
  with requested_fetch_properties [of env 100 skip] have ev: "requested_offsets ev = [skip]"
    by simp
  show ?case
  proof (cases res)
    case (Inl e)
    with f ev show ?thesis by simp
  next
    case (Inr props)
    with f ev Cons.IH [of "process_page env fm skip props (st\<lparr>log := log st @ ev\<rparr>)"]
    show ?thesis
      by (simp add: requested_process_page)
  qed
qed

lemma requested_prefix: "prefix (requested env ks) ks"
  by (induction ks) (auto split: sum.splits)

lemma requested_stop:
  assumes "sorted_wrt (<) ks" "k \<in> set (requested env ks)" "fst (fetch_properties env 100 k) = Inr []"
  shows "(\<forall>j \<in> set (requested env ks). j \<le> k) \<and> last (requested env ks) = k"
  using assms
proof (induction ks)
  case Nil
  then show ?case by simp
next
  case (Cons skip rest)
  show ?case
  proof (cases "k = skip")
    case True
    with Cons.prems(3) show ?thesis by simp
  next
    case False
    with Cons.prems(2) have in_rest: "k \<in> set (requested env rest)"
      and req: "requested env (skip # rest) = skip # requested env rest"
      by (auto split: sum.splits if_splits)
    from Cons.prems(1) have srt: "sorted_wrt (<) rest" and lt: "\<forall>j \<in> set rest. skip < j"
      by simp_all
    from Cons.IH [OF srt in_rest Cons.prems(3)]
    have ih: "\<forall>j \<in> set (requested env rest). j \<le> k" "last (requested env rest) = k"
      by simp_all
    from in_rest have "k \<in> set rest"
      using requested_prefix [of env rest] by (auto dest: set_mono_prefix)
    with lt have "skip < k" by simp
    with ih in_rest show ?thesis
      unfolding req by auto
  qed
qed

lemma sorted_range_by_100: "sorted_wrt (<) (range_by_100 limit)"
  by (simp add: range_by_100_def sorted_wrt_map sorted_wrt_iff_nth_less)

lemma log_fetch_all:
  "log (fst (fetch_all env limit fm c)) =
     log (fst (fetch_loop env fm (range_by_100 limit) \<lparr>conn = c, total = 0, log = []\<rparr>))
     @ (case snd (fetch_loop env fm (range_by_100 limit) \<lparr>conn = c, total = 0, log = []\<rparr>) of
          None \<Rightarrow> [Fetch_complete (total (fst (fetch_all env limit fm c)))]
        | Some e \<Rightarrow> [])"
  by (simp add: fetch_all_def split: prod.splits option.splits)

lemma conn_fetch_all:
  "conn (fst (fetch_all env limit fm c)) =
     conn (fst (fetch_loop env fm (range_by_100 limit) \<lparr>conn = c, total = 0, log = []\<rparr>))"
  by (simp add: fetch_all_def split: prod.splits option.splits)

lemma requested_fetch_all:
  "requested_offsets (log (fst (fetch_all env limit fm c))) = requested env (range_by_100 limit)"
  by (simp add: log_fetch_all requested_fetch_loop split: option.splits)

lemma fetch_loop_ends:
  assumes "sorted_wrt (<) ks" "k \<in> set (requested env ks)" "fst (fetch_properties env 100 k) = Inr []"
  shows "\<exists>pre. log (fst (fetch_loop env fm ks st)) = pre @ snd (fetch_properties env 100 k)
     \<and> snd (fetch_loop env fm ks st) = None"
  using assms
proof (induction ks arbitrary: st)
  case Nil
  then show ?case by simp
next
  case (Cons skip rest)
  obtain res ev where f: "fetch_properties env 100 skip = (res, ev)"
    by (cases "fetch_properties env 100 skip")
  show ?case
  proof (cases "k = skip")
    case True
    with Cons.prems(3) f show ?thesis by simp
  next
    case False
    with Cons.prems(2) f obtain props where res: "res = Inr props" "props \<noteq> []"
      and in_rest: "k \<in> set (requested env rest)"
      by (auto split: sum.splits if_splits)
    from Cons.prems(1) have srt: "sorted_wrt (<) rest" by simp
    from Cons.IH [OF srt in_rest Cons.prems(3)] f res show ?thesis
      by simp
  qed
qed

text \<open>
  Claim C4. In a run of \<open>fetch_all\<close>, if the page at an offset \<open>k\<close> that the run
  requested is empty, then no request of the run has an offset above \<open>k\<close>: the request at
  \<open>k\<close> is the last one, the requests are an initial part of \<open>range(0, limit, 100)\<close>, and
  after that request the run only prints (the failure diagnostic, if any, and the final
  line).
\<close>

theorem C4_no_fetch_after_empty_page:
  assumes "k \<in> set (requested_offsets (log (fst (fetch_all env limit fm c))))"
    and "fst (fetch_properties env 100 k) = Inr []"
  shows "(\<forall>j \<in> set (requested_offsets (log (fst (fetch_all env limit fm c)))). j \<le> k)
     \<and> last (requested_offsets (log (fst (fetch_all env limit fm c)))) = k
     \<and> prefix (requested_offsets (log (fst (fetch_all env limit fm c)))) (range_by_100 limit)
     \<and> (\<exists>pre. log (fst (fetch_all env limit fm c))
            = pre @ snd (fetch_properties env 100 k)
              @ [Fetch_complete (total (fst (fetch_all env limit fm c)))])"
proof -
  let ?ks = "range_by_100 limit"
  from assms(1) have k: "k \<in> set (requested env ?ks)"
    by (simp add: requested_fetch_all)
  from requested_stop [OF sorted_range_by_100 k assms(2)]
  have a: "\<forall>j \<in> set (requested_offsets (log (fst (fetch_all env limit fm c)))). j \<le> k"
    and b: "last (requested_offsets (log (fst (fetch_all env limit fm c)))) = k"
    by (simp_all add: requested_fetch_all)
  have p: "prefix (requested_offsets (log (fst (fetch_all env limit fm c)))) ?ks"
    by (simp add: requested_fetch_all requested_prefix)
  from fetch_loop_ends [OF sorted_range_by_100 k assms(2), of fm "\<lparr>conn = c, total = 0, log = []\<rparr>"]
  obtain pre where
    "log (fst (fetch_loop env fm ?ks \<lparr>conn = c, total = 0, log = []\<rparr>))
       = pre @ snd (fetch_properties env 100 k)"
    "snd (fetch_loop env fm ?ks \<lparr>conn = c, total = 0, log = []\<rparr>) = None"
    by blast
  then have "log (fst (fetch_all env limit fm c))
      = pre @ snd (fetch_properties env 100 k)
        @ [Fetch_complete (total (fst (fetch_all env limit fm c)))]"
    by (simp add: log_fetch_all)
  then have e: "\<exists>pre. log (fst (fetch_all env limit fm c))
      = pre @ snd (fetch_properties env 100 k)
        @ [Fetch_complete (total (fst (fetch_all env limit fm c)))]"
    by (rule exI)
  show ?thesis
    by (intro conjI) (fact a b p e)+
qed

lemma range_by_100_500: "range_by_100 500 = [0, 100, 200, 300, 400]"
  by (simp add: range_by_100_def upt_rec)

theorem C4_no_fetch_after_empty_page_witness:
  "requested_offsets (log (fst (fetch_all failing_second_page 500 True (connect empty_db)))) = [0, 100]
   \<and> fst (fetch_properties failing_second_page 100 100) = Inr []
   \<and> fst (fetch_properties failing_second_page 100 200) \<noteq> Inr []"
proof -
  have rq: "requested_offsets (log (fst (fetch_all failing_second_page 500 True (connect empty_db))))
      = [0, 100]"
    by (simp add: requested_fetch_all range_by_100_500 fetch_properties_def failing_second_page_def)
  have e: "fst (fetch_properties failing_second_page 100 100) = Inr []"
    by (simp add: fetch_properties_def failing_second_page_def)
  have n: "fst (fetch_properties failing_second_page 100 200) \<noteq> Inr []"
    by (simp add: fetch_properties_def failing_second_page_def)
  have "100 \<in> set (requested_offsets (log (fst (fetch_all failing_second_page 500 True (connect empty_db)))))"
    unfolding rq by simp
  from C4_no_fetch_after_empty_page [OF this e]
  have "last (requested_offsets (log (fst (fetch_all failing_second_page 500 True (connect empty_db))))) = 100"
    by (rule conjunct2 [THEN conjunct1])
  with rq e n show ?thesis by simp
qed

text \<open>
  Claim C9. On a connection with no transaction open, neither \<open>insert_properties\<close> nor
  \<open>insert_media\<close> nor a whole run of \<open>fetch_all\<close> removes a listing: every
  \<open>listing_key\<close> of the committed store is a \<open>listing_key\<close> of the committed store
  afterwards.
\<close>

theorem C9_no_listing_removed:
  assumes "clean c"
  shows "listing_keys (committed c)
            \<subseteq> listing_keys (committed (fst (insert_properties now props c)))
     \<and> listing_keys (committed c) \<subseteq> listing_keys (committed (fst (insert_media ms c)))
     \<and> listing_keys (committed c)
            \<subseteq> listing_keys (committed (conn (fst (fetch_all env limit fm c))))"
proof (intro conjI)
  show "listing_keys (committed c)
            \<subseteq> listing_keys (committed (fst (insert_properties now props c)))"
    by (rule insert_properties_keeps(2) [OF assms])
  show "listing_keys (committed c) \<subseteq> listing_keys (committed (fst (insert_media ms c)))"
    by (simp add: listing_keys_def insert_media_keeps(2) [OF assms])
  have "clean (conn \<lparr>conn = c, total = 0, log = []\<rparr>)"
    using assms by simp
  from fetch_loop_keeps [OF this, of env fm "range_by_100 limit"]
  show "listing_keys (committed c)
            \<subseteq> listing_keys (committed (conn (fst (fetch_all env limit fm c))))"
    by (simp add: conn_fetch_all)
qed

section \<open>Accepted and rejected batches\<close>

lemma execute_batch_accepted:
  "\<forall>t \<in> set ts. property_error t = None \<Longrightarrow>
     execute_batch (upsert_property now) ts d
       = (None, d\<lparr>properties := upsert_all now ts (properties d)\<rparr>)"
  by (induction ts arbitrary: d) (simp_all add: upsert_all_def upsert_property_def)

lemma execute_batch_rejected:
  "\<exists>t \<in> set ts. property_error t \<noteq> None \<Longrightarrow>
     \<exists>e. fst (execute_batch (upsert_property now) ts d) = Some e"
proof (induction ts arbitrary: d)
  case Nil
  then show ?case by simp
next
  case (Cons t ts)
  show ?case
  proof (cases "property_error t")
    case None
    with Cons.prems have "\<exists>t \<in> set ts. property_error t \<noteq> None" by simp
    from Cons.IH [OF this] None show ?thesis
      by (simp add: upsert_property_def)
  next
    case (Some e)
    then show ?thesis by (simp add: upsert_property_def)
  qed
qed

lemma clean_connection: "clean c \<Longrightarrow> c = connect (committed c)"
  by (cases c) (simp add: clean_def connect_def)

lemma clean_connect: "clean (connect d)"
  by (simp add: clean_def connect_def)

lemma insert_properties_accepted:
  assumes "clean c" "accepted batch"
  shows "insert_properties now batch c
     = (connect ((committed c)\<lparr>properties :=
            upsert_all now (map property_tuple batch) (properties (committed c))\<rparr>),
        [Upserted (length batch)])"
proof -
  from assms(2) have ok: "\<forall>t \<in> set (map property_tuple batch). property_error t = None"
    by (simp add: accepted_def)
  from assms(1) have w: "working c = committed c"
    by (simp add: clean_def)
  show ?thesis
  proof (cases "batch = []")
    case True
    with w show ?thesis
      by (cases c) (simp add: insert_properties_def commit_def connect_def upsert_all_def)
  next
    case False
    with w execute_batch_accepted [OF ok, of now "committed c"] show ?thesis
      by (cases c) (simp add: insert_properties_def commit_def connect_def Let_def)
  qed
qed

lemma insert_properties_failed:
  assumes "clean c"
    and "fst (execute_batch (upsert_property now) (map property_tuple batch) (working c)) = Some e"
  shows "insert_properties now batch c = (c, [Insert_properties_error e])"
proof -
  from assms(2) have ne: "map property_tuple batch \<noteq> []"
    by (cases batch) auto
  obtain w where "execute_batch (upsert_property now) (map property_tuple batch) (working c) = (Some e, w)"
    using assms(2) by (cases "execute_batch (upsert_property now) (map property_tuple batch) (working c)") simp
  with ne assms(1) show ?thesis
    by (cases c) (simp add: insert_properties_def rollback_def clean_def Let_def)
qed

lemma insert_properties_rejected:
  assumes "clean c" "\<not> accepted batch"
  shows "\<exists>e. insert_properties now batch c = (c, [Insert_properties_error e])"
proof -
  from assms(2) have "\<exists>t \<in> set (map property_tuple batch). property_error t \<noteq> None"
    by (auto simp: accepted_def)
  from execute_batch_rejected [OF this, of now "working c"] obtain e where
    "fst (execute_batch (upsert_property now) (map property_tuple batch) (working c)) = Some e"
    by blast
  from insert_properties_failed [OF assms(1) this] show ?thesis by blast
qed

lemma safe_str_take:
  "0 < m \<Longrightarrow> safe_str (\<lambda>s. s) v (Some m) = map_option (take (nat m)) v"
  by (cases v) (simp_all add: safe_str_def py_slice_to_def)

lemma varchar_error_take: "varchar_error n (map_option (take n) v) = None"
  by (cases v) (simp_all add: varchar_error_def)

lemma varchar_stored_take: "varchar_stored n (map_option (take n) v) = map_option (take n) v"
  by (cases v) (simp_all add: varchar_stored_def)

lemma property_error_tuple:
  "property_error (property_tuple p) =
     first_error
       [if ListingKey p = None then Some Not_null_violation else None,
        decimal_12_2_error (ListPrice p),
        integer_error (BedroomsTotal p),
        integer_error (BathroomsTotalInteger p),
        integer_error (YearBuilt p)]"
  by (cases "decimal_12_2_error (ListPrice p)")
    (simp_all add: property_error_def property_tuple_def safe_str_take varchar_error_take)

lemma property_stored_tuple: "property_stored (property_tuple p) = property_tuple p"
  by (simp add: property_stored_def property_tuple_def safe_str_take varchar_stored_take)

lemma property_error_raw_key:
  "\<bar>p\<bar> < 1000000000000 \<Longrightarrow> property_error (property_tuple (raw (Some k) c (Some p))) = None"
  by (simp add: property_error_tuple raw_def decimal_12_2_error_def integer_error_def)

lemma property_error_raw_keyless:
  "property_error (property_tuple (raw None c p)) = Some Not_null_violation"
  by (simp add: property_error_def property_tuple_def raw_def safe_str_def)

lemma keyless_page_fails:
  "fst (execute_batch (upsert_property now) (map property_tuple keyless_record_page) d)
     = Some Not_null_violation"
  by (simp add: keyless_record_page_def upsert_property_def property_error_raw_key
      property_error_raw_keyless)

lemma listing_key_tuple_raw:
  "length k \<le> 50 \<Longrightarrow> listing_key (property_stored (property_tuple (raw (Some k) c p))) = Some k"
  unfolding property_stored_tuple by (simp add: property_tuple_def raw_def safe_str_take)

theorem C9_no_listing_removed_witness:
  "clean (connect three_listings)
   \<and> map listing_key (properties (committed (connect three_listings)))
       = [Some ''A1'', Some ''A2'', Some ''A3'']
   \<and> map listing_key (properties (committed (fst (insert_properties 5
         [raw (Some ''B7'') (Some ''Ottawa'') (Some 50000000)] (connect three_listings)))))
       = [Some ''A1'', Some ''A2'', Some ''A3'', Some ''B7'']"
proof -
  have cl: "clean (connect three_listings)"
    by (rule clean_connect)
  have acc: "accepted [raw (Some ''B7'') (Some ''Ottawa'') (Some 50000000)]"
    by (simp add: accepted_def property_error_raw_key)
  have before: "map listing_key (properties (committed (connect three_listings)))
       = [Some ''A1'', Some ''A2'', Some ''A3'']"
    by (simp add: connect_def three_listings_def listing_def)
  have after: "map listing_key (properties (committed (fst (insert_properties 5
         [raw (Some ''B7'') (Some ''Ottawa'') (Some 50000000)] (connect three_listings)))))
       = [Some ''A1'', Some ''A2'', Some ''A3'', Some ''B7'']"
    unfolding insert_properties_accepted [OF cl acc]
    by (simp add: connect_def upsert_all_def keys_on_conflict_update listing_key_tuple_raw before [unfolded connect_def, simplified])
  from C9_no_listing_removed [OF cl, of 5 "[raw (Some ''B7'') (Some ''Ottawa'') (Some 50000000)]"]
  have "listing_keys (committed (connect three_listings))
      \<subseteq> listing_keys (committed (fst (insert_properties 5
         [raw (Some ''B7'') (Some ''Ottawa'') (Some 50000000)] (connect three_listings))))"
    by (rule conjunct1)
  with cl before after show ?thesis by simp
qed

lemma upsert_events_fetch_properties:
  "upsert_events (snd (fetch_properties env top_n skip)) = []"
  by (simp add: fetch_properties_def split: http_result.splits body.splits)

lemma requested_nonempty:
  "fst (fetch_properties env 100 skip) = Inr props \<Longrightarrow> props \<noteq> [] \<Longrightarrow>
     requested env (skip # ks) = skip # requested env ks"
  by simp

lemma requested_head: "k \<in> set (requested env (k # ks))"
  by simp

text \<open>
  Claim C8. Let the connection have no transaction open, let the page fetched at \<open>skip\<close>
  be \<open>props\<close>, and let \<open>execute_batch\<close> raise \<open>e\<close> on its tuples. Then
  \<open>insert_properties\<close> leaves the connection as it was, committed and working state alike,
  and prints the error; the listings are the same after the whole page step; the page step
  logs exactly one upsert attempt, the failed one; and the loop goes on with the remaining
  offsets, so that the next offset, if there is one, is requested.
\<close>

theorem C8_failed_batch_rolled_back:
  assumes "clean (conn st)"
    and "fetch_properties env 100 skip = (Inr props, ev)"
    and "fst (execute_batch (upsert_property (clock env skip)) (map property_tuple props)
            (working (conn st))) = Some e"
  shows "insert_properties (clock env skip) props (conn st) = (conn st, [Insert_properties_error e])
     \<and> properties (committed (conn (process_page env fm skip props (st\<lparr>log := log st @ ev\<rparr>))))
         = properties (committed (conn st))
     \<and> upsert_events (log (process_page env fm skip props (st\<lparr>log := log st @ ev\<rparr>)))
         = upsert_events (log st) @ [Insert_properties_error e]
     \<and> fetch_loop env fm (skip # rest) st
         = fetch_loop env fm rest (process_page env fm skip props (st\<lparr>log := log st @ ev\<rparr>))
     \<and> (\<forall>next rest'. rest = next # rest' \<longrightarrow>
           next \<in> set (requested_offsets (log (fst (fetch_loop env fm (skip # rest) st)))))"
proof -
  let ?st = "st\<lparr>log := log st @ ev\<rparr>"
  have ins: "insert_properties (clock env skip) props (conn st) = (conn st, [Insert_properties_error e])"
    using assms(1,3) by (rule insert_properties_failed)
  from assms(3) have ne: "props \<noteq> []"
    by (cases props) auto
  have "properties (committed (conn (process_page env fm skip props ?st)))
      = properties (committed (conn st))"
    using fetch_media_for_properties_keeps(2) [OF assms(1)]
    by (simp add: conn_process_page ins)
  moreover have "upsert_events ev = []"
    using upsert_events_fetch_properties [of env 100 skip] assms(2) by simp
  then have "upsert_events (log (process_page env fm skip props ?st))
      = upsert_events (log st) @ [Insert_properties_error e]"
    by (simp add: log_process_page ins events_fetch_media)
  moreover have loop: "fetch_loop env fm (skip # rest) st
      = fetch_loop env fm rest (process_page env fm skip props ?st)"
    using assms(2) ne by simp
  moreover have "next \<in> set (requested_offsets (log (fst (fetch_loop env fm (skip # rest) st))))"
    if "rest = next # rest'" for "next" rest'
  proof -
    from assms(2) have "fst (fetch_properties env 100 skip) = Inr props"
      by simp
    then have "requested env (skip # next # rest') = skip # requested env (next # rest')"
      using ne by (rule requested_nonempty)
    moreover have "next \<in> set (requested env (next # rest'))"
      by (rule requested_head)
    ultimately have "next \<in> set (requested env (skip # next # rest'))"
      by (simp del: requested.simps)
    then show ?thesis
      unfolding requested_fetch_loop that by (simp del: requested.simps)
  qed
  ultimately show ?thesis
    using ins by blast
qed

theorem C8_failed_batch_rolled_back_witness:
  "insert_properties 0 keyless_record_page (connect three_listings)
     = (connect three_listings, [Insert_properties_error Not_null_violation])
   \<and> 100 \<in> set (requested_offsets (log (fst (fetch_loop rejected_first_page False [0, 100]
         \<lparr>conn = connect three_listings, total = 0, log = []\<rparr>))))"
proof -
  let ?st = "\<lparr>conn = connect three_listings, total = 0, log = []\<rparr>"
  have cl: "clean (conn ?st)"
    by (simp add: clean_connect)
  have f: "fetch_properties rejected_first_page 100 0 = (Inr keyless_record_page, [Property_request 100 0])"
    by (simp add: fetch_properties_def rejected_first_page_def)
  have x: "fst (execute_batch (upsert_property (clock rejected_first_page 0))
      (map property_tuple keyless_record_page) (working (conn ?st))) = Some Not_null_violation"
    by (rule keyless_page_fails)
  note c8 = C8_failed_batch_rolled_back [OF cl f x, of False "[100]"]
  from c8 have "insert_properties (clock rejected_first_page 0) keyless_record_page (conn ?st)
      = (conn ?st, [Insert_properties_error Not_null_violation])"
    by (rule conjunct1)
  then have a: "insert_properties 0 keyless_record_page (connect three_listings)
     = (connect three_listings, [Insert_properties_error Not_null_violation])"
    by (simp add: rejected_first_page_def)
  from c8 have "\<forall>next rest'. [100] = next # rest' \<longrightarrow>
      next \<in> set (requested_offsets (log (fst (fetch_loop rejected_first_page False (0 # [100]) ?st))))"
    by (rule conjunct2 [THEN conjunct2, THEN conjunct2, THEN conjunct2])
  then have b: "100 \<in> set (requested_offsets (log (fst (fetch_loop rejected_first_page False [0, 100] ?st))))"
    by (simp del: fetch_loop.simps)
  from a b show ?thesis by (rule conjI)
qed

section \<open>Upserting a batch\<close>

lemma last_with_key_snoc:
  "last_with_key (ts @ [t]) k = (if listing_key t = k then Some t else last_with_key ts k)"
  by (simp add: last_with_key_def)

lemma last_with_key_None: "last_with_key ts k = None \<longleftrightarrow> k \<notin> set (map listing_key ts)"
  by (auto simp: last_with_key_def find_None_iff)

lemma truncate_set_excluded:
  "listing_key r = listing_key t \<Longrightarrow> property_cols.truncate (set_excluded t r) = t"
  by (cases t) (simp add: set_excluded_def property_cols.defs selected_cols.defs)

lemma truncate_new_row: "property_cols.truncate (property_cols.extend t (properties_row.fields now)) = t"
  by (cases t) (simp add: property_cols.defs properties_row.defs selected_cols.defs)

lemma distinct_on_conflict_update:
  "distinct (map listing_key rows) \<Longrightarrow> distinct (map listing_key (on_conflict_update now t rows))"
  by (simp add: keys_on_conflict_update)

lemma rows_on_conflict_update:
  assumes "distinct (map listing_key rows)" "r \<in> set (on_conflict_update now t rows)"
  shows "(listing_key r = listing_key t \<and> property_cols.truncate r = t)
     \<or> (listing_key r \<noteq> listing_key t \<and> r \<in> set rows)"
  using assms
proof (induction rows)
  case Nil
  then show ?case by (simp add: truncate_new_row listing_key_new_row)
next
  case (Cons r0 rs)
  show ?case
  proof (cases "listing_key r0 = listing_key t")
    case True
    from Cons.prems(1) True have "listing_key t \<notin> listing_key ` set rs"
      by simp
    then have notin: "\<forall>x \<in> set rs. listing_key x \<noteq> listing_key t"
      by (metis imageI)
    from Cons.prems(2) True have "r = set_excluded t r0 \<or> r \<in> set rs"
      by simp
    then show ?thesis
    proof
      assume "r = set_excluded t r0"
      with True show ?thesis
        by (simp add: truncate_set_excluded listing_key_set_excluded)
    next
      assume "r \<in> set rs"
      with notin show ?thesis by simp
    qed
  next
    case False
    with Cons.prems Cons.IH show ?thesis by auto
  qed
qed

lemma upsert_all_snoc:
  "upsert_all now (ts @ [t]) rows = on_conflict_update now (property_stored t) (upsert_all now ts rows)"
  by (simp add: upsert_all_def)

lemma distinct_upsert_all:
  "distinct (map listing_key rows) \<Longrightarrow> distinct (map listing_key (upsert_all now ts rows))"
  by (induction ts rule: rev_induct) (simp_all add: upsert_all_snoc distinct_on_conflict_update, simp add: upsert_all_def)

lemma keys_upsert_all:
  "set (map listing_key (upsert_all now ts rows))
     = set (map listing_key rows) \<union> set (map listing_key (map property_stored ts))"
proof (induction ts rule: rev_induct)
  case Nil
  show ?case by (simp add: upsert_all_def)
next
  case (snoc t ts)
  have "set (map listing_key (upsert_all now (ts @ [t]) rows))
      = insert (listing_key (property_stored t)) (set (map listing_key (upsert_all now ts rows)))"
    unfolding upsert_all_snoc keys_on_conflict_update by (simp del: set_map) auto
  with snoc show ?case by auto
qed

lemma rows_upsert_all:
  assumes "distinct (map listing_key rows)" "r \<in> set (upsert_all now ts rows)"
  shows "case last_with_key (map property_stored ts) (listing_key r) of
           Some t \<Rightarrow> property_cols.truncate r = t
         | None \<Rightarrow> r \<in> set rows"
  using assms(2)
proof (induction ts arbitrary: r rule: rev_induct)
  case Nil
  then show ?case by (simp add: upsert_all_def last_with_key_def)
next
  case (snoc t ts)
  have d: "distinct (map listing_key (upsert_all now ts rows))"
    using assms(1) by (rule distinct_upsert_all)
  from snoc.prems have "r \<in> set (on_conflict_update now (property_stored t) (upsert_all now ts rows))"
    by (simp add: upsert_all_snoc)
  from rows_on_conflict_update [OF d this]
  show ?case
  proof
    assume "listing_key r = listing_key (property_stored t) \<and> property_cols.truncate r = property_stored t"
    then show ?thesis by (simp add: last_with_key_snoc)
  next
    assume a: "listing_key r \<noteq> listing_key (property_stored t) \<and> r \<in> set (upsert_all now ts rows)"
    then have "case last_with_key (map property_stored ts) (listing_key r) of
           Some t \<Rightarrow> property_cols.truncate r = t
         | None \<Rightarrow> r \<in> set rows"
      by (intro snoc.IH) simp
    moreover from a have "listing_key (property_stored t) \<noteq> listing_key r"
      by (simp add: neq_commute)
    ultimately show ?thesis by (simp add: last_with_key_snoc)
  qed
qed

lemma map_property_stored_tuple: "map property_stored (map property_tuple batch) = map property_tuple batch"
  by (simp add: property_stored_tuple)

lemma on_conflict_update_present:
  assumes "distinct (map listing_key rows)" "listing_key t \<in> set (map listing_key rows)"
  shows "on_conflict_update now t rows
     = map (\<lambda>r. if listing_key r = listing_key t then set_excluded t r else r) rows"
  using assms
proof (induction rows)
  case Nil
  then show ?case by simp
next
  case (Cons r0 rs)
  show ?case
  proof (cases "listing_key r0 = listing_key t")
    case True
    with Cons.prems(1) have "listing_key t \<notin> listing_key ` set rs"
      by simp
    then have "\<forall>x \<in> set rs. listing_key x \<noteq> listing_key t"
      by (metis imageI)
    then have "map (\<lambda>r. if listing_key r = listing_key t then set_excluded t r else r) rs = rs"
      by (simp add: map_idI)
    with True show ?thesis by simp
  next
    case False
    with Cons.prems have "listing_key t \<in> set (map listing_key rs)" "distinct (map listing_key rs)"
      by auto
    with Cons.IH False show ?thesis by simp
  qed
qed

lemma set_excluded_twice: "set_excluded a (set_excluded b r) = set_excluded a r"
  by (simp add: set_excluded_def)

lemma set_excluded_same: "property_cols.truncate r = t \<Longrightarrow> set_excluded t r = r"
  by (cases r) (auto simp: set_excluded_def property_cols.defs selected_cols.defs)

lemma listing_key_overwrite: "listing_key (overwrite ts r) = listing_key r"
  by (simp add: overwrite_def listing_key_set_excluded split: option.splits)

lemma overwrite_snoc:
  "overwrite (ts @ [t]) r
     = (if listing_key r = listing_key t then set_excluded t (overwrite ts r) else overwrite ts r)"
  by (auto simp: overwrite_def last_with_key_snoc set_excluded_twice split: option.splits)

lemma upsert_all_present:
  assumes "distinct (map listing_key rows)"
    and "set (map listing_key (map property_stored ts)) \<subseteq> set (map listing_key rows)"
  shows "upsert_all now ts rows = map (overwrite (map property_stored ts)) rows"
  using assms(2)
proof (induction ts rule: rev_induct)
  case Nil
  show ?case by (simp add: upsert_all_def overwrite_def last_with_key_def)
next
  case (snoc t ts)
  let ?X = "map (overwrite (map property_stored ts)) rows"
  from snoc have ih: "upsert_all now ts rows = ?X" by simp
  have keys: "map listing_key ?X = map listing_key rows"
    by (simp add: listing_key_overwrite comp_def)
  have d: "distinct (map listing_key ?X)"
    unfolding keys by (rule assms(1))
  from snoc.prems have "listing_key (property_stored t) \<in> set (map listing_key ?X)"
    unfolding keys by simp
  from on_conflict_update_present [OF d this, of now]
  show ?case
    by (simp add: upsert_all_snoc ih overwrite_snoc listing_key_overwrite comp_def)
qed

lemma upsert_all_again:
  assumes "distinct (map listing_key rows)"
  shows "upsert_all now' ts (upsert_all now ts rows) = upsert_all now ts rows"
proof -
  let ?X = "upsert_all now ts rows"
  have d: "distinct (map listing_key ?X)"
    using assms by (rule distinct_upsert_all)
  have k: "set (map listing_key (map property_stored ts)) \<subseteq> set (map listing_key ?X)"
    unfolding keys_upsert_all by simp
  have "overwrite (map property_stored ts) r = r" if "r \<in> set ?X" for r
    using rows_upsert_all [OF assms that]
    by (simp add: overwrite_def set_excluded_same split: option.splits)
  then have "map (overwrite (map property_stored ts)) ?X = ?X"
    by (simp add: map_idI)
  with upsert_all_present [OF d k, of now'] show ?thesis by simp
qed

lemma insert_keyless_page:
  "fst (insert_properties now keyless_record_page (connect d)) = connect d"
proof -
  have "fst (execute_batch (upsert_property now) (map property_tuple keyless_record_page)
      (working (connect d))) = Some Not_null_violation"
    by (rule keyless_page_fails)
  from insert_properties_failed [OF clean_connect this] show ?thesis by simp
qed

lemma safe_str_None: "safe_str str None m = None"
  by (simp add: safe_str_def)

lemma tuple_raw:
  "property_tuple (raw (Some k) (Some c) p) =
     \<lparr>listing_key = Some (take 50 k), unparsed_address = None, city = Some (take 100 c),
      postal_code = None, list_price = p, bedrooms = None, bathrooms = None,
      property_type = None, property_subtype = None, year_built = None,
      public_remarks = None, standard_status = None, state_province = None,
      last_updated = None\<rparr>"
  by (simp add: property_tuple_def raw_def safe_str_take safe_str_None)

lemma new_row_cols:
  "listing_key (property_cols.extend t (properties_row.fields now)) = listing_key t"
  "list_price (property_cols.extend t (properties_row.fields now)) = list_price t"
  "fetched_at (property_cols.extend t (properties_row.fields now)) = now"
  by (simp_all add: property_cols.defs properties_row.defs)

lemma set_excluded_cols:
  "listing_key (set_excluded t r) = listing_key r"
  "list_price (set_excluded t r) = list_price t"
  "fetched_at (set_excluded t r) = fetched_at r"
  by (simp_all add: set_excluded_def)

lemma listing_cols:
  "listing_key (listing k c p b) = Some k"
  "list_price (listing k c p b) = p"
  "fetched_at (listing k c p b) = 0"
  by (simp_all add: listing_def)

lemma upsert_repeated_key_batch:
  "map (\<lambda>r. (listing_key r, list_price r, fetched_at r))
     (upsert_all 1 (map property_tuple repeated_key_batch) (properties three_listings))
   = [(Some ''A1'', Some 97000000, 0), (Some ''A2'', None, 0),
      (Some ''A3'', Some 95000000, 0), (Some ''B7'', Some 50000000, 1)]"
proof -
  define T1 where "T1 = property_tuple (raw (Some ''A1'') (Some ''Toronto'') (Some 95000000))"
  define T2 where "T2 = property_tuple (raw (Some ''B7'') (Some ''Ottawa'') (Some 50000000))"
  define T3 where "T3 = property_tuple (raw (Some ''A1'') (Some ''Toronto'') (Some 97000000))"
  define L1 where "L1 = listing ''A1'' (Some ''Toronto'') (Some 90000000) (Some 3)"
  define L2 where "L2 = listing ''A2'' (Some ''Ottawa'') None (Some 2)"
  define L3 where "L3 = listing ''A3'' None (Some 95000000) (Some 3)"
  have kt: "listing_key T1 = Some ''A1''" "listing_key T2 = Some ''B7''" "listing_key T3 = Some ''A1''"
    by (simp_all add: T1_def T2_def T3_def tuple_raw)
  have pt: "list_price T2 = Some 50000000" "list_price T3 = Some 97000000"
    by (simp_all add: T2_def T3_def tuple_raw)
  have kl: "listing_key L1 = Some ''A1''" "listing_key L2 = Some ''A2''" "listing_key L3 = Some ''A3''"
    by (simp_all add: L1_def L2_def L3_def listing_cols)
  have pl: "list_price L2 = None" "list_price L3 = Some 95000000"
    "fetched_at L1 = 0" "fetched_at L2 = 0" "fetched_at L3 = 0"
    by (simp_all add: L1_def L2_def L3_def listing_cols)
  have st: "property_stored T1 = T1" "property_stored T2 = T2" "property_stored T3 = T3"
    by (simp_all add: T1_def T2_def T3_def property_stored_tuple)
  have ts: "map property_tuple repeated_key_batch = [T1, T2, T3]"
    by (simp add: repeated_key_batch_def T1_def T2_def T3_def)
  have rows: "properties three_listings = [L1, L2, L3]"
    by (simp add: three_listings_def L1_def L2_def L3_def)
  have s1: "on_conflict_update 1 T1 [L1, L2, L3] = [set_excluded T1 L1, L2, L3]"
    by (simp add: kt kl)
  have s2: "on_conflict_update 1 T2 [set_excluded T1 L1, L2, L3]
      = [set_excluded T1 L1, L2, L3, property_cols.extend T2 (properties_row.fields 1)]"
    by (simp add: kt kl set_excluded_cols)
  have s3: "on_conflict_update 1 T3
        [set_excluded T1 L1, L2, L3, property_cols.extend T2 (properties_row.fields 1)]
      = [set_excluded T3 (set_excluded T1 L1), L2, L3,
         property_cols.extend T2 (properties_row.fields 1)]"
    by (simp add: kt kl set_excluded_cols)
  have "upsert_all 1 [T1, T2, T3] [L1, L2, L3]
      = [set_excluded T3 (set_excluded T1 L1), L2, L3,
         property_cols.extend T2 (properties_row.fields 1)]"
    by (simp only: upsert_all_def fold_simps st s1 s2 s3 comp_apply id_apply)
  then show ?thesis
    unfolding ts rows by (simp add: set_excluded_cols new_row_cols kt pt kl pl)
qed

text \<open>
  Claim C2, as amended. Take a connection with no transaction open, a store with one row
  per \<open>listing_key\<close>, and a batch that the store accepts. After \<open>insert_properties\<close>
  has run twice on the batch, the store still has one row per key; each record of the batch
  has exactly one row with its (sanitized) key; the fourteen inserted columns of every row
  whose key is in the batch are those of the last tuple with that key, whatever the row held
  before, its \<open>last_updated\<close> included; the other rows are rows of the store before; and
  the second run has changed nothing that the first left.
\<close>

theorem C2_upsert_twice:
  assumes "clean c"
    and "distinct (map listing_key (properties (committed c)))"
    and "accepted batch"
    and "once = fst (insert_properties t1 batch c)"
    and "twice = fst (insert_properties t2 batch once)"
  shows "distinct (map listing_key (properties (committed twice)))
     \<and> (\<forall>p \<in> set batch. \<exists>!r. r \<in> set (properties (committed twice))
            \<and> listing_key r = listing_key (property_tuple p))
     \<and> (\<forall>r \<in> set (properties (committed twice)). \<forall>t.
            last_with_key (map property_tuple batch) (listing_key r) = Some t \<longrightarrow>
            property_cols.truncate r = t)
     \<and> (\<forall>r \<in> set (properties (committed twice)).
            last_with_key (map property_tuple batch) (listing_key r) = None \<longrightarrow>
            r \<in> set (properties (committed c)))
     \<and> twice = once"
proof -
  let ?ts = "map property_tuple batch"
  let ?rows = "properties (committed c)"
  let ?X = "upsert_all t1 ?ts ?rows"
  have once: "once = connect ((committed c)\<lparr>properties := ?X\<rparr>)"
    unfolding assms(4) insert_properties_accepted [OF assms(1,3)] by simp
  have cl: "clean once"
    unfolding once by (rule clean_connect)
  have "twice = connect ((committed once)\<lparr>properties := upsert_all t2 ?ts (properties (committed once))\<rparr>)"
    unfolding assms(5) insert_properties_accepted [OF cl assms(3)] by simp
  also have "\<dots> = once"
    unfolding once by (simp add: connect_def upsert_all_again [OF assms(2)])
  finally have same: "twice = once" .
  have rows: "properties (committed twice) = ?X"
    unfolding same once by (simp add: connect_def)
  have d: "distinct (map listing_key ?X)"
    using assms(2) by (rule distinct_upsert_all)
  have one: "\<exists>!r. r \<in> set ?X \<and> listing_key r = listing_key (property_tuple p)"
    if "p \<in> set batch" for p
  proof -
    from that have "listing_key (property_tuple p) \<in> set (map listing_key ?X)"
      unfolding keys_upsert_all map_property_stored_tuple by simp
    then obtain r where r: "r \<in> set ?X" "listing_key r = listing_key (property_tuple p)"
      by auto
    moreover have "r' = r" if "r' \<in> set ?X" "listing_key r' = listing_key (property_tuple p)" for r'
      using d that r by (metis distinct_map inj_onD)
    ultimately show ?thesis by blast
  qed
  have vals: "property_cols.truncate r = t"
    if "r \<in> set ?X" "last_with_key ?ts (listing_key r) = Some t" for r t
    using rows_upsert_all [OF assms(2) that(1), unfolded map_property_stored_tuple] that(2)
    by simp
  have others: "r \<in> set ?rows"
    if "r \<in> set ?X" "last_with_key ?ts (listing_key r) = None" for r
    using rows_upsert_all [OF assms(2) that(1), unfolded map_property_stored_tuple] that(2)
    by simp
  show ?thesis
    unfolding rows using d one vals others same by blast
qed

theorem C2_upsert_twice_witness:
  "clean (connect three_listings)
   \<and> distinct (map listing_key (properties (committed (connect three_listings))))
   \<and> accepted repeated_key_batch
   \<and> map (\<lambda>r. (listing_key r, list_price r, fetched_at r))
        (properties (committed (fst (insert_properties 2 repeated_key_batch
           (fst (insert_properties 1 repeated_key_batch (connect three_listings)))))))
       = [(Some ''A1'', Some 97000000, 0), (Some ''A2'', None, 0),
          (Some ''A3'', Some 95000000, 0), (Some ''B7'', Some 50000000, 1)]"
proof -
  let ?c = "connect three_listings"
  have cl: "clean ?c"
    by (rule clean_connect)
  have d: "distinct (map listing_key (properties (committed ?c)))"
    by (simp add: connect_def three_listings_def listing_cols)
  have acc: "accepted repeated_key_batch"
    by (simp add: accepted_def repeated_key_batch_def property_error_raw_key)
  have "fst (insert_properties 2 repeated_key_batch (fst (insert_properties 1 repeated_key_batch ?c)))
      = fst (insert_properties 1 repeated_key_batch ?c)"
    by (rule C2_upsert_twice [OF cl d acc refl refl, THEN conjunct2, THEN conjunct2,
          THEN conjunct2, THEN conjunct2])
  also have "\<dots> = connect ((committed ?c)\<lparr>properties :=
      upsert_all 1 (map property_tuple repeated_key_batch) (properties (committed ?c))\<rparr>)"
    unfolding insert_properties_accepted [OF cl acc] by simp
  finally have "properties (committed (fst (insert_properties 2 repeated_key_batch
           (fst (insert_properties 1 repeated_key_batch ?c)))))
      = upsert_all 1 (map property_tuple repeated_key_batch) (properties three_listings)"
    by (simp add: connect_def)
  then have "map (\<lambda>r. (listing_key r, list_price r, fetched_at r))
        (properties (committed (fst (insert_properties 2 repeated_key_batch
           (fst (insert_properties 1 repeated_key_batch ?c))))))
       = [(Some ''A1'', Some 97000000, 0), (Some ''A2'', None, 0),
          (Some ''A3'', Some 95000000, 0), (Some ''B7'', Some 50000000, 1)]"
    by (simp only: upsert_repeated_key_batch)
  with cl d acc show ?thesis
    by (intro conjI)
qed

text \<open>
  The claim as first stated, for every batch, fails on a batch with a record that has no
  \<open>ListingKey\<close>: the null key violates the primary key, the whole batch is rolled back
  both times, and the store has no row for the key \<open>A1\<close> of the batch's other record.
\<close>

theorem C2_counterexample:
  "raw (Some ''A1'') (Some ''Toronto'') (Some 95000000) \<in> set keyless_record_page
   \<and> listing_key (property_tuple (raw (Some ''A1'') (Some ''Toronto'') (Some 95000000))) = Some ''A1''
   \<and> properties (committed (fst (insert_properties 2 keyless_record_page
        (fst (insert_properties 1 keyless_record_page (connect empty_db)))))) = []"
proof (intro conjI)
  show "raw (Some ''A1'') (Some ''Toronto'') (Some 95000000) \<in> set keyless_record_page"
    by (simp add: keyless_record_page_def)
  show "listing_key (property_tuple (raw (Some ''A1'') (Some ''Toronto'') (Some 95000000))) = Some ''A1''"
    by (simp add: property_tuple_def raw_def safe_str_take)
  show "properties (committed (fst (insert_properties 2 keyless_record_page
        (fst (insert_properties 1 keyless_record_page (connect empty_db)))))) = []"
    unfolding insert_keyless_page by (simp add: connect_def empty_db_def)
qed

end
